theory Spec2Isabelle
  imports Complex_Main "HOL-Library.Word" "HOL-Library.Log_Nat"
begin

unbundle bit_operations_syntax

chapter \<open>The model of browser-tts.ts\<close>

section \<open>Strings\<close>

text \<open>
  A JavaScript string is a sequence of UTF-16 code units. The model covers the strings
  whose code units lie in the Latin-1 range U+0000 .. U+00FF and writes them as
  \<open>string\<close>, one \<open>char\<close> per code unit, so that \<open>length\<close> is the string's
  \<open>length\<close> and \<open>of_char\<close> is \<open>charCodeAt\<close>.
\<close>

text \<open>
  The characters matched by the regular expression class \<open>\s\<close> and removed by
  \<open>String.prototype.trim\<close>: tab, line feed, vertical tab, form feed, carriage
  return, space and no-break space (the members of the class below U+0100).
\<close>

definition isSpace :: "char \<Rightarrow> bool" where
  "isSpace c = (of_char c \<in> {9, 10, 11, 12, 13, 32, 160 :: nat})"

text \<open>
  \<open>String.prototype.toLowerCase\<close>: in the Latin-1 range the letters A .. Z and
  U+00C0 .. U+00DE (without the multiplication sign U+00D7) move up by 32; every other
  code unit is kept.
\<close>

definition toLowerCase_char :: "char \<Rightarrow> char" where
  "toLowerCase_char c =
     (let n = (of_char c :: nat)
      in if (65 \<le> n \<and> n \<le> 90) \<or> (192 \<le> n \<and> n \<le> 222 \<and> n \<noteq> 215)
         then char_of (n + 32) else c)"

definition toLowerCase :: "string \<Rightarrow> string" where
  "toLowerCase s = map toLowerCase_char s"

text \<open>\<open>s.startsWith(p)\<close> and \<open>s.includes(p)\<close>.\<close>

fun startsWith :: "string \<Rightarrow> string \<Rightarrow> bool" where
  "startsWith s [] = True"
| "startsWith [] (p # ps) = False"
| "startsWith (c # cs) (p # ps) = (c = p \<and> startsWith cs ps)"

fun str_includes :: "string \<Rightarrow> string \<Rightarrow> bool" where
  "str_includes [] p = (p = [])"
| "str_includes (c # cs) p = (startsWith (c # cs) p \<or> str_includes cs p)"

text \<open>\<open>s.trim()\<close>: the string without its leading and trailing white space.\<close>

definition trim :: "string \<Rightarrow> string" where
  "trim s = rev (dropWhile isSpace (rev (dropWhile isSpace s)))"

text \<open>
  \<open>s.split(/\s+/)\<close>: the pieces of \<open>s\<close> between the maximal runs of white space.
  The piece before a leading run and the piece after a trailing run are empty strings,
  and the empty string splits into one empty piece.
\<close>

function split_ws :: "string \<Rightarrow> string list" where
  "split_ws s =
     (let piece = takeWhile (\<lambda>c. \<not> isSpace c) s;
          rest = dropWhile (\<lambda>c. \<not> isSpace c) s
      in if rest = [] then [piece] else piece # split_ws (dropWhile isSpace rest))"
  by pat_completeness auto
termination
proof (relation "measure length")
  show "wf (measure (length :: string \<Rightarrow> nat))" by simp
next
  fix s :: string and piece rest
  assume r: "rest = dropWhile (\<lambda>c. \<not> isSpace c) s" and ne: "rest \<noteq> []"
  from ne obtain c cs where rc: "rest = c # cs" by (cases rest) auto
  have "length (dropWhile isSpace rest) \<le> length rest"
    by (rule length_dropWhile_le)
  moreover have "isSpace c"
    using r rc dropWhile_eq_Cons_conv [of "\<lambda>c. \<not> isSpace c" s c cs] by simp
  then have "length (dropWhile isSpace rest) \<le> length cs"
    using rc by (simp add: length_dropWhile_le)
  moreover have "length rest \<le> length s"
    unfolding r by (rule length_dropWhile_le)
  ultimately show "(dropWhile isSpace rest, s) \<in> measure length"
    using rc by simp
qed

declare split_ws.simps [simp del]

section \<open>Numbers\<close>

text \<open>
  A sample of an \<open>AudioBuffer\<close> is a 32-bit float: not-a-number, an infinity or a
  finite value. The finite values are written as reals. The encoder clamps a sample to
  \<open>[-1, 1]\<close> and multiplies it by \<open>0x7FFF\<close>; for a 32-bit float (24 significant
  bits) the product with the 15-bit constant has at most 39 significant bits, so the
  double-precision product is the exact one and the exact operations below are what the
  encoder computes. Signed zeros are not distinguished: both are written as 0.
\<close>

datatype number = NaN | PosInf | NegInf | Finite real

text \<open>\<open>Math.min(a, b)\<close> and \<open>Math.max(a, b)\<close>: not-a-number if an argument is.\<close>

fun math_min :: "number \<Rightarrow> number \<Rightarrow> number" where
  "math_min NaN b = NaN"
| "math_min a NaN = NaN"
| "math_min NegInf b = NegInf"
| "math_min a NegInf = NegInf"
| "math_min PosInf b = b"
| "math_min a PosInf = a"
| "math_min (Finite a) (Finite b) = Finite (min a b)"

fun math_max :: "number \<Rightarrow> number \<Rightarrow> number" where
  "math_max NaN b = NaN"
| "math_max a NaN = NaN"
| "math_max PosInf b = PosInf"
| "math_max a PosInf = PosInf"
| "math_max NegInf b = b"
| "math_max a NegInf = a"
| "math_max (Finite a) (Finite b) = Finite (max a b)"

text \<open>The product \<open>a * k\<close> of a number with a finite positive constant \<open>k\<close>.\<close>

fun scale :: "number \<Rightarrow> real \<Rightarrow> number" where
  "scale NaN k = NaN"
| "scale PosInf k = PosInf"
| "scale NegInf k = NegInf"
| "scale (Finite a) k = Finite (a * k)"

text \<open>
  The conversion \<open>ToInt16\<close> that \<open>DataView.setInt16\<close> applies to its value: 0 for
  not-a-number and the infinities; otherwise the value is truncated towards zero and
  reduced modulo \<open>2 ^ 16\<close>.
\<close>

definition toInteger :: "real \<Rightarrow> int" where
  "toInteger x = (if 0 \<le> x then \<lfloor>x\<rfloor> else \<lceil>x\<rceil>)"

fun toInt16 :: "number \<Rightarrow> 16 word" where
  "toInt16 (Finite x) = of_int (toInteger x)"
| "toInt16 v = 0"

subsection \<open>Rounding\<close>

text \<open>
  The arithmetic of the synthesizer is double-precision arithmetic: every operation gives
  the double nearest to its exact result. The sample count and the word index are floors
  of such values, and the rounding before the floor decides them.

  \<open>round_to p x\<close> is the binary floating-point number of \<open>p\<close> significant bits
  nearest to \<open>x\<close>, ties to the even significand: \<open>x\<close> is scaled to a significand of
  \<open>p\<close> bits, which \<open>rne\<close> rounds to an integer. \<open>fl\<close> rounds to a double and
  \<open>fround\<close> to a 32-bit float, as a store into a \<open>Float32Array\<close> does. The
  exponent is not bounded: the values met here (quotients and products of integers below
  \<open>2 ^ 53\<close>, and samples) lie inside the range of the normal numbers.
\<close>

definition rne :: "rat \<Rightarrow> int" where
  "rne x = (let f = \<lfloor>x\<rfloor>; d = x - of_int f
            in if d < 1/2 then f else if 1/2 < d then f + 1 else if even f then f else f + 1)"

text \<open>For \<open>x > 0\<close>, \<open>ilog2 x\<close> is the integer \<open>k\<close> with \<open>2 ^ k \<le> x < 2 ^ (k + 1)\<close>.\<close>

definition ilog2 :: "rat \<Rightarrow> int" where
  "ilog2 x = (let (p, q) = quotient_of x; k = bitlen p - bitlen q
              in if 2 powi k \<le> x then k else k - 1)"

definition round_to :: "nat \<Rightarrow> rat \<Rightarrow> rat" where
  "round_to p x =
     (if x = 0 then 0
      else let e = ilog2 \<bar>x\<bar> - int p + 1 in of_int (rne (x / 2 powi e)) * 2 powi e)"

definition fl :: "rat \<Rightarrow> rat" where
  "fl x = round_to 53 x"

definition fround :: "rat \<Rightarrow> rat" where
  "fround x = round_to 24 x"

text \<open>The unit roundoff of double precision.\<close>

definition unit_roundoff :: rat where
  "unit_roundoff = 1 / 2 ^ 53"

text \<open>\<open>Math.PI\<close>, the double nearest to \<open>pi\<close>.\<close>

definition Math_PI :: rat where
  "Math_PI = 884279719003555 / 281474976710656"

section \<open>Errors\<close>

text \<open>
  \<open>Error msg\<close> is \<open>new Error(msg)\<close>; \<open>RangeError\<close> is what a \<open>DataView\<close>
  setter throws when the bytes it writes do not lie inside the buffer; \<open>TypeError\<close>
  is thrown by a call on \<open>undefined\<close>; \<open>NotSupportedError\<close> is what the audio
  context throws for a buffer it cannot make. A rejected promise and a thrown exception
  are both the left injection of the result.
\<close>

datatype error = Error string | RangeError | TypeError | NotSupportedError

definition and_then :: "error + 'a \<Rightarrow> ('a \<Rightarrow> error + 'b) \<Rightarrow> error + 'b" where
  "and_then m f = (case m of Inl e \<Rightarrow> Inl e | Inr x \<Rightarrow> f x)"

text \<open>
  \<open>for (let i = 0; i < n; i++) body\<close> is \<open>for_each [0..<n] body\<close>: the body runs for
  each index in turn on the state the previous one left, and an exception ends the loop.
\<close>

primrec for_each :: "nat list \<Rightarrow> (nat \<Rightarrow> 's \<Rightarrow> error + 's) \<Rightarrow> 's \<Rightarrow> error + 's" where
  "for_each [] body s = Inr s"
| "for_each (i # is) body s = and_then (body i s) (for_each is body)"

section \<open>DataView\<close>

text \<open>
  An \<open>ArrayBuffer\<close> is the list of its bytes, and the \<open>DataView\<close> over all of it
  writes at byte offsets from 0. A setter replaces the bytes at its offset and throws
  \<open>RangeError\<close> if they would pass the end of the buffer.
\<close>

type_synonym array_buffer = "8 word list"

definition store :: "nat \<Rightarrow> 8 word list \<Rightarrow> array_buffer \<Rightarrow> error + array_buffer" where
  "store byteOffset bs view =
     (if byteOffset + length bs \<le> length view
      then Inr (take byteOffset view @ bs @ drop (byteOffset + length bs) view)
      else Inl RangeError)"

text \<open>The bytes of a 16-bit and of a 32-bit value, least significant first.\<close>

definition bytes16 :: "16 word \<Rightarrow> 8 word list" where
  "bytes16 w = [ucast w, ucast (drop_bit 8 w)]"

definition bytes32 :: "32 word \<Rightarrow> 8 word list" where
  "bytes32 w = [ucast w, ucast (drop_bit 8 w), ucast (drop_bit 16 w), ucast (drop_bit 24 w)]"

text \<open>
  The setters take the value as the integer the caller passes and reduce it modulo
  \<open>2 ^ 8\<close>, \<open>2 ^ 16\<close> or \<open>2 ^ 32\<close> (\<open>ToUint8\<close>, \<open>ToUint16\<close>, \<open>ToUint32\<close>);
  \<open>setInt16\<close> takes a number. The flag is \<open>littleEndian\<close>.
\<close>

definition setUint8 :: "nat \<Rightarrow> nat \<Rightarrow> array_buffer \<Rightarrow> error + array_buffer" where
  "setUint8 byteOffset v view = store byteOffset [of_nat v] view"

definition setUint16 :: "nat \<Rightarrow> nat \<Rightarrow> bool \<Rightarrow> array_buffer \<Rightarrow> error + array_buffer" where
  "setUint16 byteOffset v littleEndian view =
     store byteOffset (if littleEndian then bytes16 (of_nat v) else rev (bytes16 (of_nat v))) view"

definition setUint32 :: "nat \<Rightarrow> nat \<Rightarrow> bool \<Rightarrow> array_buffer \<Rightarrow> error + array_buffer" where
  "setUint32 byteOffset v littleEndian view =
     store byteOffset (if littleEndian then bytes32 (of_nat v) else rev (bytes32 (of_nat v))) view"

definition setInt16 :: "nat \<Rightarrow> number \<Rightarrow> bool \<Rightarrow> array_buffer \<Rightarrow> error + array_buffer" where
  "setInt16 byteOffset v littleEndian view =
     store byteOffset (if littleEndian then bytes16 (toInt16 v) else rev (bytes16 (toInt16 v))) view"

text \<open>The readers of a little-endian field, for decoding what the encoder wrote.\<close>

definition getUint16 :: "nat \<Rightarrow> array_buffer \<Rightarrow> nat" where
  "getUint16 byteOffset view = unat (view ! byteOffset) + 256 * unat (view ! (byteOffset + 1))"

definition getUint32 :: "nat \<Rightarrow> array_buffer \<Rightarrow> nat" where
  "getUint32 byteOffset view =
     unat (view ! byteOffset) + 256 * unat (view ! (byteOffset + 1))
       + 65536 * unat (view ! (byteOffset + 2)) + 16777216 * unat (view ! (byteOffset + 3))"

definition getInt16 :: "nat \<Rightarrow> array_buffer \<Rightarrow> int" where
  "getInt16 byteOffset view = sint (of_nat (getUint16 byteOffset view) :: 16 word)"

section \<open>The encoder\<close>

text \<open>
  An \<open>AudioBuffer\<close> has a length in sample frames, a number of channels and a sample
  rate, and holds \<open>length\<close> samples for each channel:
  \<open>buffer_getChannelData b c i\<close> is \<open>b.getChannelData(c)[i]\<close>.
\<close>

record audio_buffer =
  buffer_length :: nat
  buffer_numberOfChannels :: nat
  buffer_sampleRate :: nat
  buffer_getChannelData :: "nat \<Rightarrow> nat \<Rightarrow> number"

text \<open>The local function \<open>writeString\<close> of \<open>audioBufferToWav\<close>.\<close>

definition writeString :: "nat \<Rightarrow> string \<Rightarrow> array_buffer \<Rightarrow> error + array_buffer" where
  "writeString offset string view =
     for_each [0..<length string] (\<lambda>i. setUint8 (offset + i) (of_char (string ! i))) view"

text \<open>
  The body of the two nested loops: clamp the sample, write it as a 16-bit integer at
  \<open>offset\<close> and advance \<open>offset\<close> by 2. The state of the loops is the pair of
  \<open>offset\<close> and the buffer.
\<close>

definition writeSample ::
  "audio_buffer \<Rightarrow> nat \<Rightarrow> nat \<Rightarrow> nat \<times> array_buffer \<Rightarrow> error + nat \<times> array_buffer" where
  "writeSample buffer i channel st =
     (let offset = fst st; view = snd st;
          sample = math_max (Finite (- 1))
                     (math_min (Finite 1) (buffer_getChannelData buffer channel i))
      in and_then (setInt16 offset (scale sample 32767) True view)
           (\<lambda>view. Inr (offset + 2, view)))"

definition audioBufferToWav :: "audio_buffer \<Rightarrow> error + array_buffer" where
  "audioBufferToWav buffer =
     (let length = buffer_length buffer;
          numberOfChannels = buffer_numberOfChannels buffer;
          sampleRate = buffer_sampleRate buffer;
          arrayBuffer = replicate (44 + length * numberOfChannels * 2) 0
      in
      and_then (writeString 0 ''RIFF'' arrayBuffer) (\<lambda>view.
      and_then (setUint32 4 (36 + length * numberOfChannels * 2) True view) (\<lambda>view.
      and_then (writeString 8 ''WAVE'' view) (\<lambda>view.
      and_then (writeString 12 ''fmt '' view) (\<lambda>view.
      and_then (setUint32 16 16 True view) (\<lambda>view.
      and_then (setUint16 20 1 True view) (\<lambda>view.
      and_then (setUint16 22 numberOfChannels True view) (\<lambda>view.
      and_then (setUint32 24 sampleRate True view) (\<lambda>view.
      and_then (setUint32 28 (sampleRate * numberOfChannels * 2) True view) (\<lambda>view.
      and_then (setUint16 32 (numberOfChannels * 2) True view) (\<lambda>view.
      and_then (setUint16 34 16 True view) (\<lambda>view.
      and_then (writeString 36 ''data'' view) (\<lambda>view.
      and_then (setUint32 40 (length * numberOfChannels * 2) True view) (\<lambda>view.
      and_then
        (for_each [0..<length]
           (\<lambda>i. for_each [0..<numberOfChannels] (\<lambda>channel. writeSample buffer i channel))
           (44, view))
        (\<lambda>st. Inr (snd st))))))))))))))))"

section \<open>The synthesizer\<close>

text \<open>
  What the synthesizer asks of the platform. Making the audio context
  (\<open>new (window.AudioContext || window.webkitAudioContext)()\<close>) gives a context with
  a sample rate, a positive integer, or throws: a \<open>TypeError\<close> where the platform has
  neither constructor. \<open>createBuffer\<close> throws for a buffer that the platform does not
  support. \<open>Math.sin\<close> is specified only as an approximation of the sine, from doubles
  to doubles.
\<close>

record platform =
  new_AudioContext :: "error + nat"
  createBuffer_error :: "nat \<Rightarrow> nat \<Rightarrow> nat \<Rightarrow> error option"
  Math_sin :: "rat \<Rightarrow> rat"

text \<open>
  \<open>createSyntheticAudio\<close> picks the base frequency of the waveform from its second
  argument: \<open>voiceName.toLowerCase().includes('male') ? 120 : 200\<close>.
\<close>

definition frequency :: "string \<Rightarrow> nat" where
  "frequency voiceName = (if str_includes (toLowerCase voiceName) ''male'' then 120 else 200)"

text \<open>
  The duration and the number of samples, for the sample rate of the context.
\<close>

definition wordCount :: "string \<Rightarrow> nat" where
  "wordCount text = length (split_ws (trim text))"

definition durationSeconds :: "string \<Rightarrow> rat" where
  "durationSeconds text = max 2 (fl (fl (of_nat (wordCount text) / 150) * 60))"

definition samples :: "string \<Rightarrow> nat \<Rightarrow> nat" where
  "samples text sampleRate = nat \<lfloor>fl (durationSeconds text * of_nat sampleRate)\<rfloor>"

definition words :: "string \<Rightarrow> string list" where
  "words text = split_ws (toLowerCase text)"

text \<open>The quantities of one pass of the loop, at sample index \<open>i\<close>.\<close>

definition t_at :: "nat \<Rightarrow> nat \<Rightarrow> rat" where
  "t_at sampleRate i = fl (of_nat i / of_nat sampleRate)"

definition progress :: "string \<Rightarrow> nat \<Rightarrow> nat \<Rightarrow> rat" where
  "progress text sampleRate i = fl (t_at sampleRate i / durationSeconds text)"

definition wordIndex :: "string \<Rightarrow> nat \<Rightarrow> nat \<Rightarrow> int" where
  "wordIndex text sampleRate i =
     \<lfloor>fl (progress text sampleRate i * of_nat (length (words text)))\<rfloor>"

text \<open>
  \<open>words[wordIndex] || ''\<close>: the word at the index, and the empty string where the
  index is outside the array (and where the word is the empty string).
\<close>

definition currentWord :: "string \<Rightarrow> nat \<Rightarrow> nat \<Rightarrow> string" where
  "currentWord text sampleRate i =
     (let k = wordIndex text sampleRate i
      in if 0 \<le> k \<and> nat k < length (words text) then words text ! nat k else [])"

text \<open>
  \<open>currentWord.charCodeAt(0) || 65\<close>: \<open>charCodeAt(0)\<close> is not-a-number for the empty
  string, and \<open>||\<close> takes its right operand when the left one is not-a-number or 0.
\<close>

definition charCode :: "string \<Rightarrow> nat" where
  "charCode word =
     (case word of [] \<Rightarrow> 65
      | c # cs \<Rightarrow> if (of_char c :: nat) = 0 then 65 else of_char c)"

text \<open>
  The value of the sample, a double. The operations associate to the left, as the source
  is parsed, and each is rounded; the literals 0.3, 0.2 and 0.8 are the doubles nearest
  to them, while 0.5, 2.5 and 3.5 are doubles themselves.
\<close>

definition sample :: "platform \<Rightarrow> string \<Rightarrow> string \<Rightarrow> nat \<Rightarrow> nat \<Rightarrow> rat" where
  "sample env text voiceName sampleRate i =
     (let t = t_at sampleRate i;
          progress = progress text sampleRate i;
          currentWord = currentWord text sampleRate i;
          wordFreq = of_nat (frequency voiceName + length currentWord * 5);
          charCode = of_nat (charCode currentWord);
          modulation =
            fl (Math_sin env (fl (fl (fl (t * Math_PI) * (1/2)) + charCode)) * fl (3/10));
          fundamental = Math_sin env (fl (fl (fl (2 * Math_PI) * wordFreq) * t));
          formant1 =
            fl (Math_sin env (fl (fl (fl (fl (2 * Math_PI) * wordFreq) * (5/2)) * t))
                  * fl (3/10));
          formant2 =
            fl (Math_sin env (fl (fl (fl (fl (2 * Math_PI) * wordFreq) * (7/2)) * t))
                  * fl (2/10));
          envelope = fl (Math_sin env (fl (Math_PI * progress)) * fl (8/10))
      in fl (fl (fl (fl (fl (fundamental + formant1) + formant2) + modulation) * envelope)
               * fl (2/10)))"

text \<open>
  \<open>createBuffer numberOfChannels len sampleRate\<close> is the buffer that
  \<open>audioContext.createBuffer\<close> returns when it does not throw: all samples are 0.
  \<open>setSample b c i v\<close> is the assignment \<open>b.getChannelData(c)[i] = v\<close>. The loop
  stores the sample of each index into channel 0, and the store into the
  \<open>Float32Array\<close> rounds it to a 32-bit float.
\<close>

definition createBuffer :: "nat \<Rightarrow> nat \<Rightarrow> nat \<Rightarrow> audio_buffer" where
  "createBuffer numberOfChannels len sampleRate =
     \<lparr>buffer_length = len, buffer_numberOfChannels = numberOfChannels,
      buffer_sampleRate = sampleRate, buffer_getChannelData = (\<lambda>c i. Finite 0)\<rparr>"

definition setSample :: "audio_buffer \<Rightarrow> nat \<Rightarrow> nat \<Rightarrow> number \<Rightarrow> audio_buffer" where
  "setSample b channel i v =
     b\<lparr>buffer_getChannelData :=
         (buffer_getChannelData b)(channel := (buffer_getChannelData b channel)(i := v))\<rparr>"

definition stored :: "platform \<Rightarrow> string \<Rightarrow> string \<Rightarrow> nat \<Rightarrow> nat \<Rightarrow> number" where
  "stored env text voiceName sampleRate i =
     Finite (real_of_rat (fround (sample env text voiceName sampleRate i)))"

definition fillChannel ::
  "platform \<Rightarrow> string \<Rightarrow> string \<Rightarrow> nat \<Rightarrow> audio_buffer \<Rightarrow> audio_buffer" where
  "fillChannel env text voiceName sampleRate audioBuffer =
     fold (\<lambda>i b. setSample b 0 i (stored env text voiceName sampleRate i))
       [0..<samples text sampleRate] audioBuffer"

record blob =
  blob_content :: array_buffer
  blob_type :: string

text \<open>
  The body of \<open>createSyntheticAudio\<close> runs inside \<open>try\<close>, and what it throws
  rejects the promise.
\<close>

definition createSyntheticAudio :: "platform \<Rightarrow> string \<Rightarrow> string \<Rightarrow> error + blob" where
  "createSyntheticAudio env text voiceName =
     and_then (new_AudioContext env) (\<lambda>sampleRate.
       case createBuffer_error env 1 (samples text sampleRate) sampleRate of
         Some e \<Rightarrow> Inl e
       | None \<Rightarrow>
           let audioBuffer = createBuffer 1 (samples text sampleRate) sampleRate;
               audioBuffer = fillChannel env text voiceName sampleRate audioBuffer
           in and_then (audioBufferToWav audioBuffer)
                (\<lambda>wavBuffer. Inr \<lparr>blob_content = wavBuffer, blob_type = ''audio/wav''\<rparr>))"

text \<open>
  A platform for the examples: its audio context has the given sample rate, it makes every
  buffer, and its sine is a stand-in that takes values between -1 and 1.
\<close>

definition example_platform :: "nat \<Rightarrow> platform" where
  "example_platform sampleRate =
     \<lparr>new_AudioContext = Inr sampleRate, createBuffer_error = (\<lambda>c n r. None),
      Math_sin = (\<lambda>x. max (- 1) (min 1 x))\<rparr>"

section \<open>The speech interface\<close>

text \<open>
  The platform's \<open>speechSynthesis\<close> object is known by the voices it lists. A
  \<open>BrowserTTS\<close> holds the handle (\<open>null\<close> where the platform has none) and its copy
  of the voice list.
\<close>

record speech_synthesis_voice =
  voice_name :: string
  voice_lang :: string

datatype speech_synthesis = SpeechSynthesis (getVoices: "speech_synthesis_voice list")

record browser_tts =
  tts_synth :: "speech_synthesis option"
  tts_voices :: "speech_synthesis_voice list"

text \<open>The constructor, given \<open>window.speechSynthesis\<close> where the platform has it.\<close>

definition new_BrowserTTS :: "speech_synthesis option \<Rightarrow> browser_tts" where
  "new_BrowserTTS window_speechSynthesis =
     (case window_speechSynthesis of
        None \<Rightarrow> \<lparr>tts_synth = None, tts_voices = []\<rparr>
      | Some s \<Rightarrow> \<lparr>tts_synth = Some s, tts_voices = getVoices s\<rparr>)"

record speech_synthesis_utterance =
  utterance_text :: string
  utterance_voice :: "speech_synthesis_voice option"
  utterance_rate :: rat
  utterance_pitch :: rat
  utterance_volume :: rat

definition new_SpeechSynthesisUtterance :: "string \<Rightarrow> speech_synthesis_utterance" where
  "new_SpeechSynthesisUtterance text =
     \<lparr>utterance_text = text, utterance_voice = None, utterance_rate = 1,
      utterance_pitch = 1, utterance_volume = 1\<rparr>"

text \<open>
  The value of \<open>voiceMap[voiceId] || { gender: 'female', lang: 'en-US' }\<close>, read by
  its properties \<open>gender\<close> and \<open>lang\<close>; \<open>None\<close> is \<open>undefined\<close>. \<open>voiceMap\<close>
  is an object literal, so besides its ten own keys the lookup finds what it inherits from
  \<open>Object.prototype\<close>: a function (or, for \<open>__proto__\<close>, the prototype itself),
  which is truthy and has neither property.
\<close>

record characteristics =
  gender :: "string option"
  lang :: "string option"

definition voiceMap :: "(string \<times> characteristics) list" where
  "voiceMap =
     [(''voice-male-professional-1'', \<lparr>gender = Some ''male'', lang = Some ''en-US''\<rparr>),
      (''voice-female-professional-1'', \<lparr>gender = Some ''female'', lang = Some ''en-US''\<rparr>),
      (''voice-male-casual-1'', \<lparr>gender = Some ''male'', lang = Some ''en-US''\<rparr>),
      (''voice-female-casual-1'', \<lparr>gender = Some ''female'', lang = Some ''en-US''\<rparr>),
      (''voice-male-british-1'', \<lparr>gender = Some ''male'', lang = Some ''en-GB''\<rparr>),
      (''voice-female-british-1'', \<lparr>gender = Some ''female'', lang = Some ''en-GB''\<rparr>),
      (''voice-male-narrative-1'', \<lparr>gender = Some ''male'', lang = Some ''en-US''\<rparr>),
      (''voice-female-narrative-1'', \<lparr>gender = Some ''female'', lang = Some ''en-US''\<rparr>),
      (''voice-male-news-1'', \<lparr>gender = Some ''male'', lang = Some ''en-US''\<rparr>),
      (''voice-female-news-1'', \<lparr>gender = Some ''female'', lang = Some ''en-US''\<rparr>)]"

definition Object_prototype_keys :: "string list" where
  "Object_prototype_keys =
     [''constructor'', ''hasOwnProperty'', ''isPrototypeOf'', ''propertyIsEnumerable'',
      ''toLocaleString'', ''toString'', ''valueOf'', ''__proto__'', ''__defineGetter__'',
      ''__defineSetter__'', ''__lookupGetter__'', ''__lookupSetter__'']"

definition lookupCharacteristics :: "string \<Rightarrow> characteristics" where
  "lookupCharacteristics voiceId =
     (case map_of voiceMap voiceId of
        Some c \<Rightarrow> c
      | None \<Rightarrow>
          if voiceId \<in> set Object_prototype_keys then \<lparr>gender = None, lang = None\<rparr>
          else \<lparr>gender = Some ''female'', lang = Some ''en-US''\<rparr>)"

text \<open>
  \<open>includes\<close> converts its argument to a string, \<open>undefined\<close> to "undefined".
\<close>

definition toString :: "string option \<Rightarrow> string" where
  "toString v = (case v of Some s \<Rightarrow> s | None \<Rightarrow> ''undefined'')"

text \<open>
  \<open>find\<close> returns the first voice that matches; a later search runs only if the one
  before found none, and the first voice of the list is the last resort. In the first
  search the comparison \<open>voice.lang === characteristics.lang\<close> is false for an undefined
  \<open>lang\<close>, so that the name is not looked at. The second search calls
  \<open>characteristics.lang.split('-')\<close> on the first voice of the list, which is there,
  and throws a \<open>TypeError\<close> where \<open>lang\<close> is undefined.
\<close>

definition selectVoiceByCharacteristics ::
  "browser_tts \<Rightarrow> string \<Rightarrow> error + speech_synthesis_voice option" where
  "selectVoiceByCharacteristics this voiceId =
     (if length (tts_voices this) = 0 then Inr None
      else
        let characteristics = lookupCharacteristics voiceId;
            selectedVoice =
              find (\<lambda>voice. Some (voice_lang voice) = lang characteristics
                      \<and> str_includes (toLowerCase (voice_name voice))
                            (toString (gender characteristics)))
                (tts_voices this)
        in and_then
             (case selectedVoice of
                Some v \<Rightarrow> Inr (Some v)
              | None \<Rightarrow>
                  (case lang characteristics of
                     None \<Rightarrow> Inl TypeError
                   | Some l \<Rightarrow>
                       Inr (find (\<lambda>voice.
                               startsWith (voice_lang voice) (takeWhile (\<lambda>c. c \<noteq> CHR ''-'') l)
                               \<and> str_includes (toLowerCase (voice_name voice))
                                     (toString (gender characteristics)))
                             (tts_voices this))))
             (\<lambda>selectedVoice.
                let selectedVoice =
                      (case selectedVoice of
                         Some v \<Rightarrow> Some v
                       | None \<Rightarrow>
                           find (\<lambda>voice. startsWith (voice_lang voice) ''en'') (tts_voices this))
                in Inr (case selectedVoice of
                          Some v \<Rightarrow> Some v
                        | None \<Rightarrow> Some (hd (tts_voices this)))))"

definition configureUtterance ::
  "speech_synthesis_utterance \<Rightarrow> string \<Rightarrow> speech_synthesis_utterance" where
  "configureUtterance utterance voiceId =
     (let utterance =
            (if str_includes voiceId ''professional''
             then utterance\<lparr>utterance_rate := 9 / 10, utterance_pitch := 1\<rparr>
             else if str_includes voiceId ''casual''
             then utterance\<lparr>utterance_rate := 1, utterance_pitch := 11 / 10\<rparr>
             else if str_includes voiceId ''narrative''
             then utterance\<lparr>utterance_rate := 8 / 10, utterance_pitch := 9 / 10\<rparr>
             else if str_includes voiceId ''news''
             then utterance\<lparr>utterance_rate := 95 / 100, utterance_pitch := 1\<rparr>
             else utterance)
      in utterance\<lparr>utterance_volume := 1\<rparr>)"

text \<open>
  \<open>captureAudio\<close> builds the synthetic audio from the text of the utterance and the
  name of its voice (\<open>utterance.voice?.name || 'default'\<close>), and then hands the
  utterance to the platform to be spoken, whether the synthetic audio was made or not.
  The result is the promise's outcome together with the utterances passed to
  \<open>speak\<close>.
\<close>

definition captureAudio ::
  "platform \<Rightarrow> browser_tts \<Rightarrow> speech_synthesis_utterance
     \<Rightarrow> (error + blob) \<times> speech_synthesis_utterance list" where
  "captureAudio env this utterance =
     (let voiceName =
            (case utterance_voice utterance of
               None \<Rightarrow> ''default''
             | Some v \<Rightarrow> if voice_name v = [] then ''default'' else voice_name v)
      in (createSyntheticAudio env (utterance_text utterance) voiceName, [utterance]))"

text \<open>
  \<open>generateSpeech\<close> rejects at once where the handle is \<open>null\<close>. What the body of
  the promise throws afterwards (the \<open>TypeError\<close> of the voice selection) rejects it
  too, before anything is synthesized or spoken.
\<close>

definition generateSpeech ::
  "platform \<Rightarrow> browser_tts \<Rightarrow> string \<Rightarrow> string
     \<Rightarrow> (error + blob) \<times> speech_synthesis_utterance list" where
  "generateSpeech env this text voiceId =
     (case tts_synth this of
        None \<Rightarrow> (Inl (Error ''Speech synthesis not supported''), [])
      | Some synth \<Rightarrow>
          let utterance = new_SpeechSynthesisUtterance text
          in (case selectVoiceByCharacteristics this voiceId of
                Inl e \<Rightarrow> (Inl e, [])
              | Inr voice \<Rightarrow>
                  let utterance = (case voice of
                                     Some v \<Rightarrow> utterance\<lparr>utterance_voice := Some v\<rparr>
                                   | None \<Rightarrow> utterance);
                      utterance = configureUtterance utterance voiceId
                  in captureAudio env this utterance))"

section \<open>What the encoder writes\<close>

text \<open>
  The results of the encoder are stated with the following descriptions. \<open>quantize\<close> is
  the 16-bit value of a sample: the clamped sample times 32767, truncated towards zero,
  and 0 for not-a-number. \<open>pcm\<close> is the word that \<open>writeSample\<close> passes to
  \<open>setInt16\<close>, \<open>frame_bytes\<close> the bytes of one sample frame, \<open>payload\<close> those of
  all frames, and \<open>wav_header\<close> the 44 bytes of the header. \<open>partial_view h n\<close> is a
  buffer whose first bytes \<open>h\<close> are written and whose last \<open>n\<close> bytes are still 0.
\<close>

definition quantize :: "number \<Rightarrow> int" where
  "quantize v =
     (case v of NaN \<Rightarrow> 0 | PosInf \<Rightarrow> 32767 | NegInf \<Rightarrow> - 32767
      | Finite x \<Rightarrow> toInteger (max (- 1) (min 1 x) * 32767))"

definition pcm :: "audio_buffer \<Rightarrow> nat \<Rightarrow> nat \<Rightarrow> 16 word" where
  "pcm buffer i channel =
     toInt16 (scale (math_max (Finite (- 1))
                (math_min (Finite 1) (buffer_getChannelData buffer channel i))) 32767)"

definition frame_bytes :: "audio_buffer \<Rightarrow> nat \<Rightarrow> 8 word list" where
  "frame_bytes buffer i =
     concat (map (\<lambda>channel. bytes16 (pcm buffer i channel)) [0..<buffer_numberOfChannels buffer])"

definition payload :: "audio_buffer \<Rightarrow> 8 word list" where
  "payload buffer = concat (map (frame_bytes buffer) [0..<buffer_length buffer])"

definition wav_header :: "nat \<Rightarrow> nat \<Rightarrow> nat \<Rightarrow> 8 word list" where
  "wav_header n c r =
     map of_char ''RIFF'' @ bytes32 (of_nat (36 + n * c * 2)) @ map of_char ''WAVE''
     @ map of_char ''fmt '' @ bytes32 16 @ bytes16 1 @ bytes16 (of_nat c) @ bytes32 (of_nat r)
     @ bytes32 (of_nat (r * c * 2)) @ bytes16 (of_nat (c * 2)) @ bytes16 16
     @ map of_char ''data'' @ bytes32 (of_nat (n * c * 2))"

definition partial_view :: "8 word list \<Rightarrow> nat \<Rightarrow> array_buffer" where
  "partial_view h n = h @ replicate n 0"

section \<open>The specification's wording\<close>

text \<open>
  The definitions of this section follow the words of the specification, for comparison
  with the code. The voice identifier contains the substring "male", case-insensitively:
\<close>

definition contains_male_ci :: "string \<Rightarrow> bool" where
  "contains_male_ci v =
     (\<exists>pre m a l e post. v = pre @ m # a # l # e # post
        \<and> (m = CHR ''m'' \<or> m = CHR ''M'') \<and> (a = CHR ''a'' \<or> a = CHR ''A'')
        \<and> (l = CHR ''l'' \<or> l = CHR ''L'') \<and> (e = CHR ''e'' \<or> e = CHR ''E''))"

text \<open>
  The payload value of a sample as the specification words it: clamp to \<open>[-1, 1]\<close>,
  then \<open>round(clamped * 32767)\<close>.
\<close>

definition spec_quantize :: "real \<Rightarrow> int" where
  "spec_quantize x = round (max (- 1) (min 1 x) * 32767)"

text \<open>
  The number of white-space-delimited tokens of a string: a token starts at each character
  that is not white space and that stands first or after white space. The word count of
  the specification is the number of tokens of the trimmed text, and at least 1.
\<close>

primrec token_starts :: "bool \<Rightarrow> string \<Rightarrow> nat" where
  "token_starts prev [] = 0"
| "token_starts prev (c # cs) =
     (if prev \<and> \<not> isSpace c then 1 else 0) + token_starts (isSpace c) cs"

definition count_tokens :: "string \<Rightarrow> nat" where
  "count_tokens s = token_starts True s"

definition spec_wordCount :: "string \<Rightarrow> nat" where
  "spec_wordCount text = max 1 (count_tokens (trim text))"


text \<open>
  The sample count as the specification words it, in exact arithmetic:
  \<open>floor(max(2.0, wordCount / 150 * 60) * r)\<close>.
\<close>

definition spec_samples :: "string \<Rightarrow> nat \<Rightarrow> nat" where
  "spec_samples text sampleRate =
     nat \<lfloor>max 2 (of_nat (spec_wordCount text) / 150 * 60) * (of_nat sampleRate :: rat)\<rfloor>"

text \<open>The text starts or ends with white space.\<close>

definition outer_space :: "string \<Rightarrow> bool" where
  "outer_space text = (text \<noteq> [] \<and> (isSpace (hd text) \<or> isSpace (last text)))"
chapter \<open>Properties\<close>

section \<open>Substrings and lower case\<close>

lemma startsWith_iff: "startsWith s p \<longleftrightarrow> (\<exists>post. s = p @ post)"
  by (induction s p rule: startsWith.induct) auto

lemma str_includes_iff: "str_includes s p \<longleftrightarrow> (\<exists>pre post. s = pre @ p @ post)"
proof (induction s)
  case Nil
  then show ?case by auto
next
  case (Cons c cs)
  show ?case
  proof
    assume "str_includes (c # cs) p"
    then consider "startsWith (c # cs) p" | "str_includes cs p" by auto
    then show "\<exists>pre post. c # cs = pre @ p @ post"
    proof cases
      case 1
      then obtain post where "c # cs = p @ post" by (auto simp: startsWith_iff)
      then have "c # cs = [] @ p @ post" by simp
      then show ?thesis by blast
    next
      case 2
      then obtain pre post where "cs = pre @ p @ post" using Cons.IH by auto
      then have "c # cs = (c # pre) @ p @ post" by simp
      then show ?thesis by blast
    qed
  next
    assume "\<exists>pre post. c # cs = pre @ p @ post"
    then obtain pre post where e: "c # cs = pre @ p @ post" by auto
    show "str_includes (c # cs) p"
    proof (cases pre)
      case Nil
      with e have "startsWith (c # cs) p" by (auto simp: startsWith_iff)
      then show ?thesis by simp
    next
      case (Cons d ds)
      with e have "cs = ds @ p @ post" by simp
      then have "str_includes cs p" using Cons.IH by blast
      then show ?thesis by simp
    qed
  qed
qed

lemma of_char_toLowerCase_char:
  "(of_char (toLowerCase_char c) :: nat) =
     (let n = of_char c
      in if (65 \<le> n \<and> n \<le> 90) \<or> (192 \<le> n \<and> n \<le> 222 \<and> n \<noteq> 215) then n + 32 else n)"
  by (auto simp: toLowerCase_char_def Let_def)

lemma lower_is_letter:
  assumes "(of_char x :: nat) = k" "97 \<le> k" "k \<le> 122" "(of_char y :: nat) = k - 32"
  shows "toLowerCase_char c = x \<longleftrightarrow> c = x \<or> c = y"
proof -
  have "toLowerCase_char c = x \<longleftrightarrow> (of_char (toLowerCase_char c) :: nat) = k"
    using assms(1) by (metis of_char_eq_iff)
  moreover have "c = x \<longleftrightarrow> (of_char c :: nat) = k"
    using assms(1) by (metis of_char_eq_iff)
  moreover have "c = y \<longleftrightarrow> (of_char c :: nat) = k - 32"
    using assms(4) by (metis of_char_eq_iff)
  ultimately show ?thesis
    using assms(2,3) by (auto simp: of_char_toLowerCase_char Let_def)
qed

lemma lower_m: "toLowerCase_char c = CHR ''m'' \<longleftrightarrow> c = CHR ''m'' \<or> c = CHR ''M''"
  by (rule lower_is_letter [where k = 109]) simp_all

lemma lower_a: "toLowerCase_char c = CHR ''a'' \<longleftrightarrow> c = CHR ''a'' \<or> c = CHR ''A''"
  by (rule lower_is_letter [where k = 97]) simp_all

lemma lower_l: "toLowerCase_char c = CHR ''l'' \<longleftrightarrow> c = CHR ''l'' \<or> c = CHR ''L''"
  by (rule lower_is_letter [where k = 108]) simp_all

lemma lower_e: "toLowerCase_char c = CHR ''e'' \<longleftrightarrow> c = CHR ''e'' \<or> c = CHR ''E''"
  by (rule lower_is_letter [where k = 101]) simp_all

lemma toLowerCase_male:
  "(\<exists>pre post. toLowerCase v = pre @ ''male'' @ post) \<longleftrightarrow> contains_male_ci v"
proof
  assume "\<exists>pre post. toLowerCase v = pre @ ''male'' @ post"
  then obtain pre post where "map toLowerCase_char v = pre @ ''male'' @ post"
    by (auto simp: toLowerCase_def)
  then obtain p0 r0 where v: "v = p0 @ r0" and "map toLowerCase_char r0 = ''male'' @ post"
    by (auto simp: map_eq_append_conv)
  then obtain m a l e r1 where r0: "r0 = m # a # l # e # r1"
    and "toLowerCase_char m = CHR ''m''" "toLowerCase_char a = CHR ''a''"
        "toLowerCase_char l = CHR ''l''" "toLowerCase_char e = CHR ''e''"
    by (auto simp: map_eq_Cons_conv)
  then have "v = p0 @ m # a # l # e # r1
      \<and> (m = CHR ''m'' \<or> m = CHR ''M'') \<and> (a = CHR ''a'' \<or> a = CHR ''A'')
      \<and> (l = CHR ''l'' \<or> l = CHR ''L'') \<and> (e = CHR ''e'' \<or> e = CHR ''E'')"
    using v by (simp add: lower_m lower_a lower_l lower_e)
  then show "contains_male_ci v"
    unfolding contains_male_ci_def by blast
next
  assume "contains_male_ci v"
  then obtain pre m a l e post where v: "v = pre @ m # a # l # e # post"
    and "toLowerCase_char m = CHR ''m''" "toLowerCase_char a = CHR ''a''"
        "toLowerCase_char l = CHR ''l''" "toLowerCase_char e = CHR ''e''"
    unfolding contains_male_ci_def lower_m lower_a lower_l lower_e by blast
  then have "toLowerCase v = map toLowerCase_char pre @ ''male'' @ map toLowerCase_char post"
    by (simp add: toLowerCase_def)
  then show "\<exists>pre post. toLowerCase v = pre @ ''male'' @ post" by blast
qed

section \<open>Base frequency\<close>

text \<open>
  Claim C6. For every voice identifier, the base frequency is 120 Hz if the identifier
  contains the substring "male" in any mixture of upper and lower case, and 200 Hz
  otherwise.
\<close>

theorem frequency_male_ci:
  "frequency v = (if contains_male_ci v then 120 else 200)"
  unfolding frequency_def str_includes_iff toLowerCase_male ..

theorem frequency_male_ci_witness:
  "frequency ''Voice-MALE-1'' = 120 \<and> contains_male_ci ''Voice-MALE-1''"
proof -
  have "frequency ''Voice-MALE-1'' = 120"
    by code_simp
  with frequency_male_ci [of "''Voice-MALE-1''"] show ?thesis
    by (simp split: if_splits)
qed

text \<open>
  Claim C1. The test vector of the specification expects 120 Hz for "voice-male-x", and
  200 Hz for "voice-female-x" and for "unknown-id". The code gives 120 Hz for
  "voice-female-x", because "female" contains "male".
\<close>

theorem frequency_test_vector:
  "frequency ''voice-male-x'' = 120 \<and> frequency ''voice-female-x'' = 120
     \<and> frequency ''unknown-id'' = 200"
  by (simp add: frequency_def toLowerCase_def toLowerCase_char_def)

section \<open>Splitting at white space\<close>

lemma split_ws_unfold:
  "split_ws s =
     (if dropWhile (\<lambda>c. \<not> isSpace c) s = [] then [takeWhile (\<lambda>c. \<not> isSpace c) s]
      else takeWhile (\<lambda>c. \<not> isSpace c) s
             # split_ws (dropWhile isSpace (dropWhile (\<lambda>c. \<not> isSpace c) s)))"
  by (subst split_ws.simps) (simp add: Let_def)

lemma token_starts_nonspace:
  "\<forall>c\<in>set p. \<not> isSpace c \<Longrightarrow>
     token_starts prev (p @ s) =
       (if p = [] then token_starts prev s
        else (if prev then 1 else 0) + token_starts False s)"
proof (induction p arbitrary: prev)
  case Nil
  then show ?case by simp
next
  case (Cons c p)
  then show ?case by (cases p) auto
qed

lemma token_starts_space:
  "\<forall>c\<in>set p. isSpace c \<Longrightarrow> p \<noteq> [] \<Longrightarrow>
     token_starts prev (p @ s) = token_starts True s"
proof (induction p arbitrary: prev)
  case Nil
  then show ?case by simp
next
  case (Cons c p)
  then show ?case by (cases p) auto
qed

lemma split_ws_step:
  assumes "dropWhile (\<lambda>c. \<not> isSpace c) s \<noteq> []"
  shows "split_ws s = takeWhile (\<lambda>c. \<not> isSpace c) s
           # split_ws (dropWhile isSpace (dropWhile (\<lambda>c. \<not> isSpace c) s))"
  using assms split_ws_unfold [of s] by (simp only: if_False)

lemma split_ws_last:
  assumes "dropWhile (\<lambda>c. \<not> isSpace c) s = []"
  shows "split_ws s = [s]"
proof -
  have "takeWhile (\<lambda>c. \<not> isSpace c) s = s"
    using assms by (simp add: dropWhile_eq_Nil_conv)
  with assms split_ws_unfold [of s] show ?thesis by (simp only: if_True refl)
qed

text \<open>The shape of a string at its first run of white space.\<close>

lemma split_shape:
  assumes "dropWhile (\<lambda>c. \<not> isSpace c) s \<noteq> []"
  defines "p \<equiv> takeWhile (\<lambda>c. \<not> isSpace c) s"
  defines "w \<equiv> takeWhile isSpace (dropWhile (\<lambda>c. \<not> isSpace c) s)"
  defines "r \<equiv> dropWhile isSpace (dropWhile (\<lambda>c. \<not> isSpace c) s)"
  shows "s = p @ w @ r" "\<forall>c\<in>set p. \<not> isSpace c" "\<forall>c\<in>set w. isSpace c" "w \<noteq> []"
    "r \<noteq> [] \<Longrightarrow> \<not> isSpace (hd r)"
proof -
  show "s = p @ w @ r"
    by (simp add: p_def w_def r_def)
  show "\<forall>c\<in>set p. \<not> isSpace c"
    unfolding p_def by (auto dest: set_takeWhileD)
  show "\<forall>c\<in>set w. isSpace c"
    unfolding w_def by (auto dest: set_takeWhileD)
  from assms(1) obtain c cs where cs: "dropWhile (\<lambda>c. \<not> isSpace c) s = c # cs"
    by (cases "dropWhile (\<lambda>c. \<not> isSpace c) s") auto
  then have "isSpace c"
    using dropWhile_eq_Cons_conv [of "\<lambda>c. \<not> isSpace c" s c cs] by simp
  then show "w \<noteq> []"
    by (simp add: w_def cs)
  show "\<not> isSpace (hd r)" if "r \<noteq> []"
    using that hd_dropWhile [of isSpace "dropWhile (\<lambda>c. \<not> isSpace c) s"]
    by (simp add: r_def)
qed

lemma length_split_ws:
  "length (split_ws s) =
     count_tokens s + (if s = [] \<or> isSpace (hd s) then 1 else 0)
       + (if s \<noteq> [] \<and> isSpace (last s) then 1 else 0)"
proof (induction s rule: split_ws.induct)
  case (1 s)
  define p where "p = takeWhile (\<lambda>c. \<not> isSpace c) s"
  define d where "d = dropWhile (\<lambda>c. \<not> isSpace c) s"
  define w where "w = takeWhile isSpace d"
  define r where "r = dropWhile isSpace d"
  show ?case
  proof (cases "d = []")
    case True
    then have all: "\<forall>c\<in>set s. \<not> isSpace c"
      by (simp add: d_def dropWhile_eq_Nil_conv)
    have "count_tokens s = (if s = [] then 0 else 1)"
      using token_starts_nonspace [OF all, of True "[]"] by (simp add: count_tokens_def)
    moreover have "s \<noteq> [] \<Longrightarrow> \<not> isSpace (hd s) \<and> \<not> isSpace (last s)"
      using all by simp
    moreover have "length (split_ws s) = 1"
      using True split_ws_last [of s] by (simp add: d_def)
    ultimately show ?thesis by (cases "s = []") simp_all
  next
    case False
    then have dne: "dropWhile (\<lambda>c. \<not> isSpace c) s \<noteq> []" by (simp add: d_def)
    note sh = split_shape [OF dne, folded d_def, folded p_def w_def r_def]
    have s: "s = p @ w @ r" by (rule sh(1))
    have sne: "s \<noteq> []" using False by (auto simp: d_def)
    have IH: "length (split_ws r) =
       count_tokens r + (if r = [] \<or> isSpace (hd r) then 1 else 0)
         + (if r \<noteq> [] \<and> isSpace (last r) then 1 else 0)"
      unfolding r_def d_def using dne by (rule "1.IH" [OF refl refl])
    have len: "length (split_ws s) = 1 + length (split_ws r)"
      unfolding split_ws_step [OF dne] r_def d_def by simp
    have "token_starts True (p @ w @ r)
            = (if p = [] then token_starts True (w @ r) else 1 + token_starts False (w @ r))"
      using token_starts_nonspace [OF sh(2), of True "w @ r"] by simp
    moreover have "token_starts b (w @ r) = token_starts True r" for b
      by (rule token_starts_space [OF sh(3) sh(4)])
    ultimately have "token_starts True (p @ w @ r) = (if p = [] then 0 else 1) + token_starts True r"
      by simp
    then have ct: "count_tokens s = (if p = [] then 0 else 1) + count_tokens r"
      unfolding count_tokens_def by (subst s) simp
    have hd: "isSpace (hd s) \<longleftrightarrow> p = []"
    proof (cases "p = []")
      case True
      then have "hd s = hd w" using sh(4) by (subst s) simp
      moreover have "isSpace (hd w)" using sh(3) sh(4) by simp
      ultimately show ?thesis using True by simp
    next
      case False
      then have "hd s = hd p" by (subst s) simp
      moreover have "\<not> isSpace (hd p)" using sh(2) False by simp
      ultimately show ?thesis using False by simp
    qed
    have A: "(if s = [] \<or> isSpace (hd s) then 1 else 0::nat) = (if p = [] then 1 else 0)"
      using sne hd by simp
    have B: "(if s \<noteq> [] \<and> isSpace (last s) then 1 else 0::nat)
           = (if r = [] \<or> isSpace (hd r) then 1 else 0)
             + (if r \<noteq> [] \<and> isSpace (last r) then 1 else 0)"
    proof (cases "r = []")
      case True
      then have "last s = last w" using sh(4) by (subst s) simp
      moreover have "isSpace (last w)" using sh(3) sh(4) by simp
      ultimately show ?thesis using True sne by simp
    next
      case False
      then have "last s = last r" by (subst s) simp
      then show ?thesis using False sne sh(5) by simp
    qed
    show ?thesis
      unfolding len IH ct A B by simp
  qed
qed

lemma split_ws_nonempty: "split_ws s \<noteq> []"
  by (cases "dropWhile (\<lambda>c. \<not> isSpace c) s = []")
     (simp_all add: split_ws_last split_ws_step)

text \<open>An empty piece comes from the empty string, or from leading or trailing white space.\<close>

lemma empty_piece:
  "[] \<in> set (split_ws s) \<Longrightarrow> s = [] \<or> isSpace (hd s) \<or> isSpace (last s)"
proof (induction s rule: split_ws.induct)
  case (1 s)
  define p where "p = takeWhile (\<lambda>c. \<not> isSpace c) s"
  define d where "d = dropWhile (\<lambda>c. \<not> isSpace c) s"
  define w where "w = takeWhile isSpace d"
  define r where "r = dropWhile isSpace d"
  show ?case
  proof (cases "d = []")
    case True
    then have "split_ws s = [s]" by (simp add: d_def split_ws_last)
    with "1.prems" show ?thesis by simp
  next
    case False
    then have dne: "dropWhile (\<lambda>c. \<not> isSpace c) s \<noteq> []" by (simp add: d_def)
    note sh = split_shape [OF dne, folded d_def, folded p_def w_def r_def]
    have s: "s = p @ w @ r" by (rule sh(1))
    have IH: "[] \<in> set (split_ws r) \<Longrightarrow> r = [] \<or> isSpace (hd r) \<or> isSpace (last r)"
      unfolding r_def d_def using dne by (rule "1.IH" [OF refl refl])
    have "split_ws s = p # split_ws r"
      unfolding split_ws_step [OF dne] p_def r_def d_def ..
    with "1.prems" consider "p = []" | "[] \<in> set (split_ws r)" by auto
    then show ?thesis
    proof cases
      case 1
      then have "hd s = hd w" using sh(4) by (subst s) simp
      moreover have "isSpace (hd w)" using sh(3) sh(4) by simp
      ultimately show ?thesis by simp
    next
      case 2
      show ?thesis
      proof (cases "r = []")
        case True
        then have "last s = last w" using sh(4) by (subst s) simp
        moreover have "isSpace (last w)" using sh(3) sh(4) by simp
        ultimately show ?thesis by simp
      next
        case False
        with IH [OF 2] sh(5) have "isSpace (last r)" by blast
        moreover have "last s = last r" using False by (subst s) simp
        ultimately show ?thesis by simp
      qed
    qed
  qed
qed

lemma isSpace_toLowerCase_char [simp]: "isSpace (toLowerCase_char c) = isSpace c"
proof -
  have "(of_char c :: nat) < 256" by simp
  then show ?thesis
    unfolding isSpace_def toLowerCase_char_def Let_def
    by (auto simp: Let_def)
qed

lemma toLowerCase_Nil_iff [simp]: "toLowerCase s = [] \<longleftrightarrow> s = []"
  by (simp add: toLowerCase_def)

lemma hd_toLowerCase: "s \<noteq> [] \<Longrightarrow> hd (toLowerCase s) = toLowerCase_char (hd s)"
  by (simp add: toLowerCase_def hd_map)

lemma last_toLowerCase: "s \<noteq> [] \<Longrightarrow> last (toLowerCase s) = toLowerCase_char (last s)"
  by (simp add: toLowerCase_def last_map)

lemma empty_word:
  assumes "[] \<in> set (words text)"
  shows "text = [] \<or> isSpace (hd text) \<or> isSpace (last text)"
proof (cases "text = []")
  case False
  from empty_piece [OF assms [unfolded words_def]] False
  show ?thesis by (simp add: hd_toLowerCase last_toLowerCase)
qed simp

text \<open>A trimmed string neither starts nor ends with white space.\<close>

lemma trim_ends:
  assumes "trim s \<noteq> []"
  shows "\<not> isSpace (hd (trim s))" "\<not> isSpace (last (trim s))"
proof -
  define u where "u = dropWhile isSpace s"
  define v where "v = dropWhile isSpace (rev u)"
  have t: "trim s = rev v" by (simp add: trim_def u_def v_def)
  have v: "v \<noteq> []" using assms t by simp
  then have "\<not> isSpace (hd v)"
    unfolding v_def using hd_dropWhile [of isSpace "rev u"] by simp
  then show "\<not> isSpace (last (trim s))"
    using v by (simp add: t last_rev)
  have ru: "rev u = takeWhile isSpace (rev u) @ v"
    by (simp add: v_def)
  have une: "u \<noteq> []" using v by (auto simp: v_def)
  have "last (takeWhile isSpace (rev u) @ v) = last v" using v by simp
  then have "last v = last (rev u)" by (simp only: ru [symmetric])
  also have "\<dots> = hd u" using une by (simp add: last_rev)
  finally have "hd (trim s) = hd u" using v by (simp add: t hd_rev)
  moreover have "\<not> isSpace (hd u)"
    using une hd_dropWhile [of isSpace s] by (simp add: u_def)
  ultimately show "\<not> isSpace (hd (trim s))" by simp
qed

lemma count_tokens_pos: "s \<noteq> [] \<Longrightarrow> \<not> isSpace (hd s) \<Longrightarrow> 0 < count_tokens s"
  by (cases s) (simp_all add: count_tokens_def)

lemma wordCount_spec: "wordCount text = spec_wordCount text"
proof (cases "trim text = []")
  case True
  then show ?thesis
    by (simp add: wordCount_def spec_wordCount_def length_split_ws count_tokens_def)
next
  case False
  from trim_ends [OF False] count_tokens_pos [OF False] show ?thesis
    using False by (simp add: wordCount_def spec_wordCount_def length_split_ws)
qed

section \<open>Rounding\<close>

lemma rne_error: "\<bar>of_int (rne x) - x\<bar> \<le> 1 / 2"
proof -
  define f where "f = \<lfloor>x\<rfloor>"
  define d where "d = x - of_int f"
  have d: "0 \<le> d" "d < 1"
    unfolding d_def f_def by linarith+
  have x: "x = of_int f + d" by (simp add: d_def)
  show ?thesis
    unfolding rne_def Let_def f_def [symmetric] d_def [symmetric]
    using d by (auto simp: x)
qed

lemma rne_of_int [simp]: "rne (of_int m) = m"
  by (simp add: rne_def)

lemma rne_nonneg: "0 \<le> x \<Longrightarrow> 0 \<le> rne x"
  by (auto simp: rne_def Let_def)

lemma ilog2_bounds:
  assumes "0 < x"
  shows "2 powi (ilog2 x) \<le> x" and "x < 2 powi (ilog2 x + 1)"
proof -
  obtain p q where pq: "quotient_of x = (p, q)" by (cases "quotient_of x")
  have q: "0 < q" using pq by (rule quotient_of_denom_pos)
  have x: "x = of_int p / of_int q" using pq by (rule quotient_of_div)
  have p: "0 < p" using assms q unfolding x by (simp add: zero_less_divide_iff)
  define k where "k = bitlen p - bitlen q"
  have bp: "1 \<le> bitlen p" "1 \<le> bitlen q"
    using p q by (simp_all add: bitlen_alt_def)
  have pl: "(2::rat) powi (bitlen p - 1) \<le> of_int p"
  proof -
    have "2 ^ nat (bitlen p - 1) \<le> p" using bitlen_bounds [OF p] by simp
    then have "(of_int (2 ^ nat (bitlen p - 1)) :: rat) \<le> of_int p"
      by (simp only: of_int_le_iff)
    then show ?thesis using bp by (simp add: power_int_nonneg_exp)
  qed
  have pu: "of_int p < (2::rat) powi (bitlen p)"
  proof -
    have "p < 2 ^ nat (bitlen p)" using bitlen_bounds [OF p] by simp
    then have "(of_int p :: rat) < of_int (2 ^ nat (bitlen p))"
      by (simp only: of_int_less_iff)
    then show ?thesis using bp by (simp add: power_int_nonneg_exp)
  qed
  have ql: "(2::rat) powi (bitlen q - 1) \<le> of_int q"
  proof -
    have "2 ^ nat (bitlen q - 1) \<le> q" using bitlen_bounds [OF q] by simp
    then have "(of_int (2 ^ nat (bitlen q - 1)) :: rat) \<le> of_int q"
      by (simp only: of_int_le_iff)
    then show ?thesis using bp by (simp add: power_int_nonneg_exp)
  qed
  have qu: "of_int q < (2::rat) powi (bitlen q)"
  proof -
    have "q < 2 ^ nat (bitlen q)" using bitlen_bounds [OF q] by simp
    then have "(of_int q :: rat) < of_int (2 ^ nat (bitlen q))"
      by (simp only: of_int_less_iff)
    then show ?thesis using bp by (simp add: power_int_nonneg_exp)
  qed
  have lower: "(2::rat) powi (k - 1) \<le> x"
  proof -
    have "(2::rat) powi (k - 1) = 2 powi (bitlen p - 1) / 2 powi (bitlen q)"
      by (simp add: k_def power_int_diff [symmetric] algebra_simps)
    also have "\<dots> \<le> of_int p / 2 powi (bitlen q)"
      using pl by (simp add: divide_right_mono)
    also have "\<dots> \<le> of_int p / of_int q"
      using qu p q by (intro divide_left_mono) (simp_all add: less_imp_le)
    finally show ?thesis by (simp add: x)
  qed
  have upper: "x < (2::rat) powi (k + 1)"
  proof -
    have "x = of_int p / of_int q" by (rule x)
    also have "\<dots> \<le> of_int p / 2 powi (bitlen q - 1)"
      using ql p q by (intro divide_left_mono) (simp_all add: less_imp_le)
    also have "\<dots> < 2 powi (bitlen p) / 2 powi (bitlen q - 1)"
      using pu by (simp add: divide_strict_right_mono)
    also have "\<dots> = 2 powi (k + 1)"
      by (simp add: k_def power_int_diff [symmetric] algebra_simps)
    finally show ?thesis .
  qed
  have il: "ilog2 x = (if 2 powi k \<le> x then k else k - 1)"
    by (simp add: ilog2_def pq k_def Let_def)
  show "2 powi (ilog2 x) \<le> x"
    using lower by (simp add: il)
  show "x < 2 powi (ilog2 x + 1)"
    using upper by (simp add: il not_le)
qed


lemma round_to_zero [simp]: "round_to p 0 = 0"
  by (simp add: round_to_def)

text \<open>The relative error of a rounding to \<open>q + 1\<close> bits is at most \<open>2 ^ - (q + 1)\<close>.\<close>

lemma round_to_error:
  "\<bar>round_to (Suc q) x - x\<bar> \<le> \<bar>x\<bar> / 2 ^ Suc q"
proof (cases "x = 0")
  case True
  then show ?thesis by simp
next
  case False
  then have ax: "0 < \<bar>x\<bar>" by simp
  define e where "e = ilog2 \<bar>x\<bar> - int q"
  define P :: rat where "P = 2 powi e"
  define y where "y = x / P"
  have pe: "0 < P" by (simp add: P_def)
  have "(2::rat) powi (e + int q) \<le> \<bar>x\<bar>"
    using ilog2_bounds(1) [OF ax] by (simp add: e_def)
  moreover have "(2::rat) powi (e + int q) = P * 2 powi (int q)"
    unfolding P_def by (rule power_int_add) simp
  ultimately have "P * 2 ^ q \<le> \<bar>x\<bar>" by simp
  then have y: "2 ^ q \<le> \<bar>y\<bar>"
    unfolding y_def using pe by (simp add: le_divide_eq mult.commute)
  have r: "round_to (Suc q) x = of_int (rne y) * P"
    using False by (simp add: round_to_def e_def y_def P_def Let_def)
  have yx: "y * P = x"
    using pe by (simp add: y_def)
  have "round_to (Suc q) x - x = of_int (rne y) * P - y * P"
    by (simp only: r yx)
  also have "\<dots> = (of_int (rne y) - y) * P"
    by (simp only: left_diff_distrib)
  finally have "\<bar>round_to (Suc q) x - x\<bar> = \<bar>of_int (rne y) - y\<bar> * P"
    using pe by (simp add: abs_mult)
  also have "\<dots> \<le> (1 / 2) * P"
    using rne_error [of y] pe by (intro mult_right_mono) simp_all
  also have "\<dots> \<le> (\<bar>y\<bar> / 2 ^ Suc q) * P"
  proof (intro mult_right_mono)
    have "(1::rat) / 2 = 2 ^ q / 2 ^ Suc q" by simp
    also have "\<dots> \<le> \<bar>y\<bar> / 2 ^ Suc q"
      using y by (intro divide_right_mono) simp_all
    finally show "1 / 2 \<le> \<bar>y\<bar> / 2 ^ Suc q" .
    show "0 \<le> P" using pe by simp
  qed
  also have "\<dots> = \<bar>y * P\<bar> / 2 ^ Suc q"
    using pe by (simp add: abs_mult)
  finally show ?thesis by (simp only: yx)
qed

lemma fl_zero [simp]: "fl 0 = 0"
  by (simp add: fl_def)

lemma fl_abs_error: "\<bar>fl x - x\<bar> \<le> \<bar>x\<bar> * unit_roundoff"
proof -
  have "(53::nat) = Suc 52" by simp
  then have f: "fl x = round_to (Suc 52) x" by (simp only: fl_def)
  have u: "\<bar>x\<bar> / 2 ^ Suc 52 = \<bar>x\<bar> * unit_roundoff"
    by (simp add: unit_roundoff_def)
  show ?thesis
    using round_to_error [of 52 x] unfolding f u .
qed

lemma fl_error:
  assumes "0 < x"
  shows "\<bar>fl x - x\<bar> \<le> x * unit_roundoff"
  using fl_abs_error [of x] assms by simp

lemma fl_upper: "0 \<le> x \<Longrightarrow> fl x \<le> x * (1 + unit_roundoff)"
proof (cases "x = 0")
  case False
  assume "0 \<le> x"
  with False have "0 < x" by simp
  from fl_error [OF this] have "fl x - x \<le> x * unit_roundoff" by (simp add: abs_le_iff)
  then show ?thesis by (simp add: distrib_left)
qed simp

lemma fl_lower: "0 \<le> x \<Longrightarrow> x * (1 - unit_roundoff) \<le> fl x"
proof (cases "x = 0")
  case False
  assume "0 \<le> x"
  with False have "0 < x" by simp
  from fl_error [OF this] have "x - fl x \<le> x * unit_roundoff" by (simp add: abs_le_iff)
  then show ?thesis by (simp add: right_diff_distrib)
qed simp

lemma unit_roundoff_bounds: "0 < unit_roundoff" "unit_roundoff < 1"
  by (simp_all add: unit_roundoff_def)

lemma fl_nonneg: "0 \<le> x \<Longrightarrow> 0 \<le> fl x"
proof -
  assume x: "0 \<le> x"
  have "0 \<le> x * (1 - unit_roundoff)"
    using x unit_roundoff_bounds by (intro mult_nonneg_nonneg) simp_all
  with fl_lower [OF x] show ?thesis by linarith
qed

text \<open>An integer below \<open>2 ^ 53\<close> is a double: rounding keeps it.\<close>

lemma fl_of_int:
  assumes "0 < n" "n < 2 ^ 53"
  shows "fl (of_int n) = of_int n"
proof -
  define x :: rat where "x = of_int n"
  have x0: "0 < x" using assms(1) by (simp add: x_def)
  define e where "e = ilog2 \<bar>x\<bar> - int 53 + 1"
  have "(of_int n :: rat) < of_int (2 ^ 53)"
    using assms(2) by (simp only: of_int_less_iff)
  then have "x < 2 powi 53" by (simp add: x_def)
  with ilog2_bounds(1) [OF x0] have "(2::rat) powi (ilog2 x) < 2 powi 53"
    by (rule le_less_trans)
  then have "ilog2 x < 53"
    by (rule power_int_le_imp_less_exp [rotated]) simp_all
  then have e: "e \<le> 0" using x0 by (simp add: e_def)
  define m where "m = nat (- e)"
  have em: "e = - int m" using e by (simp add: m_def)
  have pe: "(2::rat) powi e = 1 / 2 ^ m"
    unfolding em by (simp add: power_int_minus_divide)
  have "x / 2 powi e = of_int (n * 2 ^ m)"
    by (simp add: pe x_def)
  then have "rne (x / 2 powi e) = n * 2 ^ m"
    by (simp only: rne_of_int)
  then have "fl x = of_int (n * 2 ^ m) * 2 powi e"
    using x0 unfolding fl_def round_to_def e_def Let_def by simp
  then show ?thesis
    by (simp add: pe x_def)
qed


subsection \<open>Accumulated rounding in the word index\<close>

lemma roundoff_pow4: "(1 + unit_roundoff) ^ 4 \<le> 1 + 5 * unit_roundoff"
proof -
  define u where "u = unit_roundoff"
  have u: "0 \<le> u" "u \<le> 1 / 10"
    by (simp_all add: u_def unit_roundoff_def)
  have e: "(1 + u) ^ 4 = 1 + 4 * u + u * (u * (6 + 4 * u + u * u))"
    by (simp add: power4_eq_xxxx algebra_simps)
  have "u * u \<le> 1" using u by (intro mult_le_one) simp_all
  then have "6 + 4 * u + u * u \<le> 8" using u by simp
  then have "u * (6 + 4 * u + u * u) \<le> (1 / 10) * 8"
    using u by (intro mult_mono) simp_all
  then have a: "u * (6 + 4 * u + u * u) \<le> 1" by simp
  have "u * (u * (6 + 4 * u + u * u)) \<le> u * 1"
    by (rule mult_left_mono) (use a u in simp_all)
  then show ?thesis unfolding u_def [symmetric] e by simp
qed

lemma index_core:
  fixes I R d L c t p q :: rat
  assumes I: "0 < I" "I < 2 ^ 50"
    and c: "I + 1 \<le> c" "c \<le> d * R * (1 + unit_roundoff)"
    and pos: "0 < R" "0 < d" "0 < L"
    and t: "t \<le> I / R * (1 + unit_roundoff)"
    and p: "p \<le> t / d * (1 + unit_roundoff)"
    and q: "q \<le> p * L * (1 + unit_roundoff)"
  shows "q < L"
proof -
  define U where "U = 1 + unit_roundoff"
  have U: "0 < U" "1 \<le> U" using unit_roundoff_bounds by (simp_all add: U_def)
  note t' = t [folded U_def] and p' = p [folded U_def] and q' = q [folded U_def]
    and c' = c(2) [folded U_def]
  have "t / d \<le> I / R * U / d"
    by (rule divide_right_mono) (use t' pos in simp_all)
  then have "t / d * U \<le> I / R * U / d * U"
    by (rule mult_right_mono) (use U in simp_all)
  with p' have p2: "p \<le> I / R * U / d * U" by simp
  have "p * L \<le> I / R * U / d * U * L"
    by (rule mult_right_mono) (use p2 pos in simp_all)
  then have "p * L * U \<le> I / R * U / d * U * L * U"
    by (rule mult_right_mono) (use U in simp_all)
  with q' have q2: "q \<le> I / R * U / d * U * L * U" by simp
  have eq: "I / R * U / d * U * L * U = (I * U ^ 3 * L) * (1 / (d * R))"
    using pos by (simp add: power3_eq_cube field_simps)
  have "I + 1 \<le> d * R * U" using c(1) c' by simp
  then have "(I + 1) / (d * R) \<le> U"
    using pos by (simp add: pos_divide_le_eq mult.commute mult.left_commute)
  then have "(I + 1) * (1 / (d * R)) \<le> U" by simp
  then have k: "1 / (d * R) \<le> U / (I + 1)"
    using I by (simp add: pos_le_divide_eq mult.commute)
  have "(I * U ^ 3 * L) * (1 / (d * R)) \<le> (I * U ^ 3 * L) * (U / (I + 1))"
    by (rule mult_left_mono) (use k I U pos in simp_all)
  also have "\<dots> = L * (I * U ^ 4 / (I + 1))"
    by (simp add: power4_eq_xxxx power3_eq_cube)
  also have "\<dots> < L * 1"
  proof (rule mult_strict_left_mono)
    have "I * U ^ 4 \<le> I * (1 + 5 * unit_roundoff)"
      unfolding U_def by (rule mult_left_mono) (use roundoff_pow4 I in simp_all)
    also have "\<dots> = I + 5 * (I * unit_roundoff)" by (simp add: algebra_simps)
    also have "\<dots> < I + 1"
    proof -
      have "I * unit_roundoff < 2 ^ 50 * unit_roundoff"
        by (rule mult_strict_right_mono) (use I unit_roundoff_bounds in simp_all)
      also have "\<dots> = 1 / 8" by (simp add: unit_roundoff_def)
      finally show ?thesis by simp
    qed
    finally show "I * U ^ 4 / (I + 1) < 1"
      using I by simp
    show "0 < L" by (rule pos)
  qed
  finally have "(I * U ^ 3 * L) * (1 / (d * R)) < L" by simp
  with q2 eq show ?thesis by simp
qed


subsection \<open>The word index stays inside the word list\<close>

lemma durationSeconds_ge: "2 \<le> durationSeconds text"
  by (simp add: durationSeconds_def)

lemma t_at_nonneg: "0 \<le> t_at r i"
  unfolding t_at_def by (rule fl_nonneg) simp

lemma progress_nonneg: "0 \<le> progress text r i"
  unfolding progress_def
  by (rule fl_nonneg) (use t_at_nonneg [of r i] durationSeconds_ge [of "text"] in simp)

lemma wordIndex_nonneg: "0 \<le> wordIndex text r i"
proof -
  have "0 \<le> fl (progress text r i * of_nat (length (words text)))"
    by (rule fl_nonneg) (use progress_nonneg [of "text" r i] in simp)
  then show ?thesis unfolding wordIndex_def by simp
qed

lemma wordIndex_first: "wordIndex text r 0 = 0"
  by (simp add: wordIndex_def progress_def t_at_def)

lemma length_words_pos: "0 < length (words text)"
  by (simp add: words_def split_ws_nonempty)

lemma wordIndex_less:
  assumes i: "i < samples text r" and n: "samples text r \<le> 2 ^ 50"
  shows "wordIndex text r i < int (length (words text))"
proof (cases "i = 0")
  case True
  then show ?thesis using length_words_pos [of "text"] by (simp add: wordIndex_first)
next
  case False
  define I :: rat where "I = of_nat i"
  define R :: rat where "R = of_nat r"
  define d where "d = durationSeconds text"
  define L :: rat where "L = of_nat (length (words text))"
  define c where "c = fl (d * R)"
  define t where "t = t_at r i"
  define p where "p = progress text r i"
  define q where "q = fl (p * L)"
  have d: "2 \<le> d" unfolding d_def by (rule durationSeconds_ge)
  have R0: "0 \<le> R" by (simp add: R_def)
  have I0: "0 < I" using False by (simp add: I_def)
  have "i < 2 ^ 50" using i n by (rule less_le_trans)
  then have "(of_nat i :: rat) < of_nat (2 ^ 50)" by (simp only: of_nat_less_iff)
  then have I50: "I < 2 ^ 50" unfolding I_def by (simp only: of_nat_power of_nat_numeral)
  have N: "samples text r = nat \<lfloor>c\<rfloor>"
    by (simp add: samples_def c_def d_def R_def)
  have "int (Suc i) \<le> \<lfloor>c\<rfloor>" using i unfolding N by simp
  then have "of_int (int (Suc i)) \<le> c" by (simp only: le_floor_iff)
  then have c1: "I + 1 \<le> c" by (simp add: I_def add.commute)
  have dR0: "0 \<le> d * R" using d R0 by simp
  have c2: "c \<le> d * R * (1 + unit_roundoff)"
    unfolding c_def by (rule fl_upper) (rule dR0)
  have "R \<noteq> 0"
  proof
    assume "R = 0"
    then have "c = 0" by (simp add: c_def)
    with c1 I0 show False by simp
  qed
  with R0 have Rpos: "0 < R" by simp
  have dpos: "0 < d" using d by simp
  have Lpos: "0 < L" using length_words_pos [of "text"] by (simp add: L_def)
  have t0: "0 \<le> t" unfolding t_def by (rule t_at_nonneg)
  have p0: "0 \<le> p" unfolding p_def by (rule progress_nonneg)
  have tb: "t \<le> I / R * (1 + unit_roundoff)"
    unfolding t_def t_at_def I_def R_def by (rule fl_upper) simp
  have pb: "p \<le> t / d * (1 + unit_roundoff)"
    unfolding p_def progress_def t_def [symmetric] d_def [symmetric]
    by (rule fl_upper) (use t0 dpos in simp)
  have qb: "q \<le> p * L * (1 + unit_roundoff)"
    unfolding q_def by (rule fl_upper) (use p0 Lpos in simp)
  have "q < L"
    by (rule index_core [OF I0 I50 c1 c2 Rpos dpos Lpos tb pb qb])
  then have "\<lfloor>q\<rfloor> < int (length (words text))"
    by (simp add: floor_less_iff L_def)
  then show ?thesis by (simp add: wordIndex_def q_def p_def L_def)
qed


subsection \<open>The sample count against exact arithmetic\<close>

lemma max_lipschitz: "\<bar>max (2::rat) x - max 2 y\<bar> \<le> \<bar>x - y\<bar>"
  by (cases "2 \<le> x"; cases "2 \<le> y"; simp add: max_def)

lemma count_core:
  fixes w R :: rat
  assumes w: "0 \<le> w" and R: "0 \<le> R"
    and E: "max 2 (w / 150 * 60) * R \<le> 2 ^ 48"
  shows "\<bar>fl (max 2 (fl (fl (w / 150) * 60)) * R) - max 2 (w / 150 * 60) * R\<bar> \<le> 5 / 32"
proof -
  define u where "u = unit_roundoff"
  define a where "a = w / 150"
  define d1 where "d1 = fl a"
  define b where "b = d1 * 60"
  define d2 where "d2 = fl b"
  define g where "g = a * 60"
  define D where "D = max 2 g"
  define d where "d = max 2 d2"
  define c where "c = fl (d * R)"
  have u: "0 \<le> u" "3 * u \<le> 1" "u \<le> 1" by (simp_all add: u_def unit_roundoff_def)
  have a0: "0 \<le> a" using w by (simp add: a_def)
  have g0: "0 \<le> g" using a0 by (simp add: g_def)
  have au0: "0 \<le> a * u" using a0 u by simp
  have e1: "\<bar>d1 - a\<bar> \<le> a * u"
    using fl_abs_error [of a] a0 by (simp add: d1_def u_def)
  have d1_0: "0 \<le> d1" unfolding d1_def by (rule fl_nonneg) (rule a0)
  have b0: "0 \<le> b" using d1_0 by (simp add: b_def)
  have e2: "\<bar>d2 - b\<bar> \<le> b * u"
    using fl_abs_error [of b] b0 by (simp add: d2_def u_def)
  have bg: "\<bar>b - g\<bar> \<le> 60 * (a * u)"
  proof -
    have "b - g = 60 * (d1 - a)" by (simp add: b_def g_def algebra_simps)
    then have "\<bar>b - g\<bar> = \<bar>60 * (d1 - a)\<bar>" by (simp only:)
    also have "\<dots> = \<bar>60\<bar> * \<bar>d1 - a\<bar>" by (rule abs_mult)
    finally have "\<bar>b - g\<bar> = 60 * \<bar>d1 - a\<bar>" by simp
    with e1 show ?thesis by simp
  qed
  have "b \<le> g + 60 * (a * u)" using bg by (simp add: abs_le_iff)
  then have "b * u \<le> (g + 60 * (a * u)) * u"
    by (rule mult_right_mono) (rule u)
  also have "\<dots> = g * u + g * u * u" by (simp add: g_def algebra_simps)
  also have "\<dots> \<le> g * u + g * u * 1"
  proof -
    have "g * u * u \<le> g * u * 1"
      by (rule mult_left_mono) (use u g0 in simp_all)
    then show ?thesis by simp
  qed
  finally have bu: "b * u \<le> 2 * (g * u)" by simp
  have gu: "60 * (a * u) = g * u" by (simp add: g_def)
  have "\<bar>d2 - g\<bar> \<le> \<bar>d2 - b\<bar> + \<bar>b - g\<bar>" by simp
  with e2 bg bu gu have e3: "\<bar>d2 - g\<bar> \<le> 3 * (g * u)" by simp
  have gD: "g \<le> D" "2 \<le> D" by (simp_all add: D_def)
  have D0: "0 \<le> D" using gD by simp
  have "g * u \<le> D * u" by (rule mult_right_mono) (use gD u in simp_all)
  with e3 max_lipschitz [of d2 g] have e4: "\<bar>d - D\<bar> \<le> 3 * (D * u)"
    by (simp add: d_def D_def)
  have "D * (3 * u) \<le> D * 1" by (rule mult_left_mono) (use u D0 in simp_all)
  with e4 have dD: "d \<le> 2 * D" by (simp add: abs_le_iff)
  have d0: "0 \<le> d" by (simp add: d_def)
  have dR0: "0 \<le> d * R" using d0 R by simp
  have e5: "\<bar>c - d * R\<bar> \<le> d * R * u"
    using fl_abs_error [of "d * R"] dR0 by (simp add: c_def u_def)
  have Ru0: "0 \<le> R * u" using R u by simp
  have "d * (R * u) \<le> 2 * D * (R * u)"
    by (rule mult_right_mono) (use dD Ru0 in simp_all)
  then have e6: "d * R * u \<le> 2 * (D * R * u)" by (simp add: mult_ac)
  have "\<bar>d * R - D * R\<bar> = \<bar>d - D\<bar> * R"
    using R by (simp add: abs_mult flip: left_diff_distrib)
  also have "\<dots> \<le> 3 * (D * u) * R"
    by (rule mult_right_mono) (use e4 R in simp_all)
  finally have e7: "\<bar>d * R - D * R\<bar> \<le> 3 * (D * R * u)" by (simp add: mult_ac)
  have "\<bar>c - D * R\<bar> \<le> \<bar>c - d * R\<bar> + \<bar>d * R - D * R\<bar>" by simp
  with e5 e6 e7 have e8: "\<bar>c - D * R\<bar> \<le> 5 * (D * R * u)" by simp
  have "D * R * u \<le> 2 ^ 48 * u"
    by (rule mult_right_mono) (use E u in \<open>simp_all add: D_def g_def a_def\<close>)
  also have "\<dots> = 1 / 32" by (simp add: u_def unit_roundoff_def)
  finally have "5 * (D * R * u) \<le> 5 / 32" by simp
  with e8 have "\<bar>c - D * R\<bar> \<le> 5 / 32" by simp
  then show ?thesis by (simp only: c_def d_def d2_def b_def d1_def a_def D_def g_def)
qed

lemma floor_fifths:
  fixes c :: rat and k :: int
  assumes "\<bar>c - of_int k / 5\<bar> \<le> 5 / 32"
  shows "\<lfloor>c\<rfloor> = k div 5 \<or> \<lfloor>c\<rfloor> = k div 5 - 1"
proof -
  define F where "F = k div 5"
  define m where "m = k mod 5"
  have k: "k = 5 * F + m" by (simp add: F_def m_def)
  have m: "0 \<le> m" "m \<le> 4" by (simp_all add: m_def) 
  define z :: rat where "z = of_int k / 5"
  have "z = of_int F + of_int m / 5" by (simp add: z_def k)
  moreover have "0 \<le> (of_int m :: rat)" "(of_int m :: rat) \<le> 4" using m by simp_all
  ultimately have z: "of_int F \<le> z" "z \<le> of_int F + 4 / 5" by simp_all
  have "\<bar>c - z\<bar> \<le> 5 / 32" using assms by (simp only: z_def)
  then have "c \<le> z + 5 / 32" "z - 5 / 32 \<le> c" by (simp_all only: abs_le_iff) linarith+
  with z have "c < of_int F + 1" "of_int F - 1 \<le> c" by linarith+
  then have "c < of_int (F + 1)" "of_int (F - 1) \<le> c" by simp_all
  then have "\<lfloor>c\<rfloor> < F + 1" "F - 1 \<le> \<lfloor>c\<rfloor>"
    by (simp_all only: floor_less_iff le_floor_iff)
  then show ?thesis unfolding F_def [symmetric] by linarith
qed


lemma exact_count_fifths:
  "max 2 (of_nat n / 150 * 60) * (of_nat r :: rat) = of_int (int (max 10 (2 * n) * r)) / 5"
proof -
  have "max 2 (of_nat n / 150 * 60) = (of_nat (max 10 (2 * n)) :: rat) / 5"
    by (simp add: max_def)
  then show ?thesis by simp
qed

lemma spec_samples_div:
  "spec_samples text r = nat (int (max 10 (2 * spec_wordCount text) * r) div 5)"
proof -
  have "\<lfloor>(of_int (int (max 10 (2 * spec_wordCount text) * r)) :: rat) / of_int 5\<rfloor>
      = int (max 10 (2 * spec_wordCount text) * r) div 5"
    by (rule floor_divide_of_int_eq)
  then show ?thesis
    unfolding spec_samples_def exact_count_fifths by simp
qed

lemma samples_within_one:
  assumes "spec_samples text r < 2 ^ 48"
  shows "samples text r = spec_samples text r \<or> samples text r + 1 = spec_samples text r"
proof -
  define n where "n = spec_wordCount text"
  define k where "k = int (max 10 (2 * n) * r)"
  define E :: rat where "E = max 2 (of_nat n / 150 * 60) * of_nat r"
  define c where "c = fl (max 2 (fl (fl (of_nat n / 150) * 60)) * of_nat r)"
  have Ek: "E = of_int k / 5" unfolding E_def k_def by (rule exact_count_fifths)
  have S: "spec_samples text r = nat (k div 5)"
    unfolding k_def n_def by (rule spec_samples_div)
  have k0: "0 \<le> k div 5" by (simp add: k_def pos_imp_zdiv_nonneg_iff)
  have fE: "\<lfloor>E\<rfloor> = k div 5"
    unfolding Ek using floor_divide_of_int_eq [of k 5, where ?'a = rat] by simp
  have "k div 5 < 2 ^ 48" using assms k0 unfolding S by simp
  then have "\<lfloor>E\<rfloor> < 2 ^ 48" by (simp only: fE)
  then have "E < of_int (2 ^ 48)" by (simp only: floor_less_iff)
  then have E48: "E \<le> 2 ^ 48" by simp
  have "\<bar>c - E\<bar> \<le> 5 / 32"
    unfolding c_def E_def by (rule count_core) (use E48 in \<open>simp_all add: E_def\<close>)
  then have "\<lfloor>c\<rfloor> = k div 5 \<or> \<lfloor>c\<rfloor> = k div 5 - 1"
    unfolding Ek by (rule floor_fifths)
  moreover have "0 \<le> c" unfolding c_def by (rule fl_nonneg) simp
  then have "0 \<le> \<lfloor>c\<rfloor>" by simp
  moreover have "samples text r = nat \<lfloor>c\<rfloor>"
    by (simp add: samples_def durationSeconds_def wordCount_spec c_def n_def)
  ultimately show ?thesis unfolding S by auto
qed

lemma durationSeconds_single:
  assumes "spec_wordCount text = 1"
  shows "durationSeconds text = 2"
proof -
  have "fl (fl (1 / 150) * 60) \<le> 2" by code_simp
  then show ?thesis by (simp add: durationSeconds_def wordCount_spec assms)
qed

lemma samples_single:
  assumes "spec_wordCount text = 1" and "r < 2 ^ 52"
  shows "samples text r = 2 * r"
proof (cases "r = 0")
  case True
  then show ?thesis by (simp add: samples_def)
next
  case False
  have "2 * r < 2 * 2 ^ 52" using assms(2) by simp
  then have "int (2 * r) < int (2 * 2 ^ 52)" by (simp only: of_nat_less_iff)
  then have b: "int (2 * r) < 2 ^ 53" by simp
  have a: "0 < int (2 * r)" using False by simp
  have "fl (of_int (int (2 * r))) = of_int (int (2 * r))" by (rule fl_of_int [OF a b])
  then have "fl (2 * of_nat r) = of_int (int (2 * r))" by simp
  then have "nat \<lfloor>fl (2 * of_nat r)\<rfloor> = 2 * r" by (simp only: floor_of_int nat_int)
  then show ?thesis
    by (simp only: samples_def durationSeconds_single [OF assms(1)])
qed

lemma spec_samples_single:
  assumes "spec_wordCount text = 1"
  shows "spec_samples text r = 2 * r"
  unfolding spec_samples_div assms by simp


subsection \<open>The magnitude of a sample\<close>

lemma fl_abs_bound:
  assumes "\<bar>x\<bar> \<le> B" and "B * (1 + 1 / 10 ^ 12) \<le> C"
  shows "\<bar>fl x\<bar> \<le> C"
proof -
  have u: "unit_roundoff \<le> 1 / 10 ^ 12" by (simp add: unit_roundoff_def)
  have B: "0 \<le> B" using assms(1) by simp
  have "\<bar>fl x\<bar> \<le> \<bar>x\<bar> + \<bar>fl x - x\<bar>" by simp
  also have "\<dots> \<le> \<bar>x\<bar> + \<bar>x\<bar> * unit_roundoff"
    using fl_abs_error [of x] by simp
  also have "\<dots> = \<bar>x\<bar> * (1 + unit_roundoff)" by (simp add: distrib_left)
  also have "\<dots> \<le> B * (1 + 1 / 10 ^ 12)"
    by (rule mult_mono) (use assms(1) u B unit_roundoff_bounds(1) in simp_all)
  finally show ?thesis using assms(2) by simp
qed

lemma fl_add_bound:
  assumes "\<bar>a\<bar> \<le> A" and "\<bar>b\<bar> \<le> B" and "(A + B) * (1 + 1 / 10 ^ 12) \<le> C"
  shows "\<bar>fl (a + b)\<bar> \<le> C"
proof (rule fl_abs_bound)
  show "\<bar>a + b\<bar> \<le> A + B" using assms(1,2) by simp
  show "(A + B) * (1 + 1 / 10 ^ 12) \<le> C" by (rule assms(3))
qed

lemma fl_mult_bound:
  assumes "\<bar>a\<bar> \<le> A" and "\<bar>b\<bar> \<le> B" and "(A * B) * (1 + 1 / 10 ^ 12) \<le> C"
  shows "\<bar>fl (a * b)\<bar> \<le> C"
proof (rule fl_abs_bound)
  have "\<bar>a\<bar> * \<bar>b\<bar> \<le> A * B"
    by (rule mult_mono) (use assms(1,2) in simp_all)
  then show "\<bar>a * b\<bar> \<le> A * B" by (simp only: abs_mult)
  show "(A * B) * (1 + 1 / 10 ^ 12) \<le> C" by (rule assms(3))
qed

lemma literal_bounds:
  "\<bar>fl (3 / 10)\<bar> \<le> 3000000001 / 10 ^ 10"
  "\<bar>fl (2 / 10)\<bar> \<le> 2000000001 / 10 ^ 10"
  "\<bar>fl (8 / 10)\<bar> \<le> 8000000001 / 10 ^ 10"
  by (rule fl_abs_bound [where B = "3 / 10"], simp, simp,
      rule fl_abs_bound [where B = "2 / 10"], simp, simp,
      rule fl_abs_bound [where B = "8 / 10"], simp, simp)

lemma sample_bound:
  assumes sin: "\<And>x. \<bar>Math_sin env x\<bar> \<le> 1"
  shows "\<bar>sample env text voiceName sampleRate i\<bar> \<le> 2880000004 / 10 ^ 10"
proof -
  define t where "t = t_at sampleRate i"
  define p where "p = progress text sampleRate i"
  define w :: rat where
    "w = of_nat (frequency voiceName + length (currentWord text sampleRate i) * 5)"
  define cc :: rat where "cc = of_nat (charCode (currentWord text sampleRate i))"
  define modulation where
    "modulation = fl (Math_sin env (fl (fl (fl (t * Math_PI) * (1/2)) + cc)) * fl (3/10))"
  define fundamental where
    "fundamental = Math_sin env (fl (fl (fl (2 * Math_PI) * w) * t))"
  define formant1 where
    "formant1 = fl (Math_sin env (fl (fl (fl (fl (2 * Math_PI) * w) * (5/2)) * t)) * fl (3/10))"
  define formant2 where
    "formant2 = fl (Math_sin env (fl (fl (fl (fl (2 * Math_PI) * w) * (7/2)) * t)) * fl (2/10))"
  define envelope where "envelope = fl (Math_sin env (fl (Math_PI * p)) * fl (8/10))"
  define s1 where "s1 = fl (fundamental + formant1)"
  define s2 where "s2 = fl (s1 + formant2)"
  define s3 where "s3 = fl (s2 + modulation)"
  define m1 where "m1 = fl (s3 * envelope)"
  have e: "sample env text voiceName sampleRate i = fl (m1 * fl (2/10))"
    by (simp only: sample_def Let_def m1_def s3_def s2_def s1_def envelope_def formant2_def
        formant1_def fundamental_def modulation_def cc_def w_def p_def t_def)
  have b0: "\<bar>fundamental\<bar> \<le> 1" unfolding fundamental_def by (rule sin)
  have b1: "\<bar>formant1\<bar> \<le> 3000000002 / 10 ^ 10"
    unfolding formant1_def by (rule fl_mult_bound [OF sin literal_bounds(1)]) simp
  have b2: "\<bar>formant2\<bar> \<le> 2000000002 / 10 ^ 10"
    unfolding formant2_def by (rule fl_mult_bound [OF sin literal_bounds(2)]) simp
  have b3: "\<bar>modulation\<bar> \<le> 3000000002 / 10 ^ 10"
    unfolding modulation_def by (rule fl_mult_bound [OF sin literal_bounds(1)]) simp
  have b4: "\<bar>envelope\<bar> \<le> 8000000002 / 10 ^ 10"
    unfolding envelope_def by (rule fl_mult_bound [OF sin literal_bounds(3)]) simp
  have c1: "\<bar>s1\<bar> \<le> 13000000003 / 10 ^ 10"
    unfolding s1_def by (rule fl_add_bound [OF b0 b1]) simp
  have c2: "\<bar>s2\<bar> \<le> 15000000006 / 10 ^ 10"
    unfolding s2_def by (rule fl_add_bound [OF c1 b2]) simp
  have c3: "\<bar>s3\<bar> \<le> 18000000009 / 10 ^ 10"
    unfolding s3_def by (rule fl_add_bound [OF c2 b3]) simp
  have c4: "\<bar>m1\<bar> \<le> 14400000012 / 10 ^ 10"
    unfolding m1_def by (rule fl_mult_bound [OF c3 b4]) simp
  show ?thesis
    unfolding e by (rule fl_mult_bound [OF c4 literal_bounds(2)]) simp
qed


lemma ilog2_quarter:
  assumes "1 / 4 \<le> x" and "x < 1 / 2"
  shows "ilog2 x = - 2"
proof -
  have x: "0 < x" using assms(1) by simp
  define k where "k = ilog2 x"
  have l: "2 powi k \<le> x" and h: "x < 2 powi (k + 1)"
    unfolding k_def by (rule ilog2_bounds [OF x])+
  have "k < - 1"
  proof (rule ccontr)
    assume "\<not> k < - 1"
    then have "- 1 \<le> k" by simp
    then have "(2::rat) powi (- 1) \<le> 2 powi k" by (rule power_int_increasing) simp
    with l assms(2) show False by (simp add: power_int_minus)
  qed
  moreover have "- 3 < k"
  proof (rule ccontr)
    assume "\<not> - 3 < k"
    then have "k + 1 \<le> - 2" by simp
    then have "(2::rat) powi (k + 1) \<le> 2 powi (- 2)" by (rule power_int_increasing) simp
    with h assms(1) show False by (simp add: power_int_minus)
  qed
  ultimately show ?thesis unfolding k_def by simp
qed

lemma fround_bound:
  assumes "\<bar>x\<bar> \<le> 2880000004 / 10 ^ 10"
  shows "\<bar>fround x\<bar> \<le> 288 / 1000"
proof (cases "\<bar>x\<bar> < 1 / 4")
  case True
  have "(24::nat) = Suc 23" by simp
  then have f: "fround x = round_to (Suc 23) x" by (simp only: fround_def)
  have "\<bar>fround x - x\<bar> \<le> \<bar>x\<bar> / 2 ^ Suc 23"
    unfolding f by (rule round_to_error)
  then have "\<bar>fround x - x\<bar> \<le> \<bar>x\<bar> / 16777216" by simp
  moreover have "\<bar>fround x\<bar> \<le> \<bar>x\<bar> + \<bar>fround x - x\<bar>" by simp
  ultimately show ?thesis using True by linarith
next
  case False
  then have lo: "1 / 4 \<le> \<bar>x\<bar>" by simp
  have hi: "\<bar>x\<bar> < 1 / 2" using assms by simp
  have x: "x \<noteq> 0" using lo by auto
  have k: "ilog2 \<bar>x\<bar> = - 2" by (rule ilog2_quarter [OF lo hi])
  have P: "(2::rat) powi (- 25) = 1 / 33554432" by (simp add: power_int_minus)
  define y where "y = x * 33554432"
  have r: "fround x = of_int (rne y) / 33554432"
    using x by (simp add: fround_def round_to_def Let_def k P y_def)
  have "\<bar>y\<bar> = \<bar>x\<bar> * 33554432" by (simp add: y_def abs_mult)
  with assms have y: "\<bar>y\<bar> < 9663676 + 1 / 2" by simp
  have "\<bar>of_int (rne y)\<bar> \<le> \<bar>y\<bar> + \<bar>of_int (rne y) - y\<bar>" by simp
  with rne_error [of y] y have "\<bar>(of_int (rne y) :: rat)\<bar> < 9663677" by linarith
  then have "(of_int \<bar>rne y\<bar> :: rat) < of_int 9663677" by simp
  then have "\<bar>rne y\<bar> < 9663677" by (simp only: of_int_less_iff)
  then have "\<bar>rne y\<bar> \<le> 9663676" by simp
  then have "(of_int \<bar>rne y\<bar> :: rat) \<le> of_int 9663676" by (simp only: of_int_le_iff)
  then have "\<bar>(of_int (rne y) :: rat)\<bar> \<le> 9663676" by simp
  then show ?thesis unfolding r by simp
qed

section \<open>The encoder's loops\<close>

lemma and_then_Inr [simp]: "and_then (Inr x) f = f x"
  by (simp add: and_then_def)

lemma and_then_Inl [simp]: "and_then (Inl e) f = Inl e"
  by (simp add: and_then_def)

lemma store_mid:
  "length pre = off \<Longrightarrow> length mid = length bs \<Longrightarrow>
     store off bs (pre @ mid @ post) = Inr (pre @ bs @ post)"
  by (simp add: store_def)

lemma length_bytes16 [simp]: "length (bytes16 w) = 2"
  by (simp add: bytes16_def)

lemma length_bytes32 [simp]: "length (bytes32 w) = 4"
  by (simp add: bytes32_def)

lemma writeSample_step:
  assumes "length pre = off" "2 \<le> length zs"
  shows "writeSample b i c (off, pre @ zs)
           = Inr (off + 2, (pre @ bytes16 (pcm b i c)) @ drop 2 zs)"
proof -
  have zs: "zs = take 2 zs @ drop 2 zs" by simp
  have "store off (bytes16 (pcm b i c)) (pre @ take 2 zs @ drop 2 zs)
          = Inr (pre @ bytes16 (pcm b i c) @ drop 2 zs)"
    by (rule store_mid) (use assms in simp_all)
  then show ?thesis
    using zs by (simp add: writeSample_def setInt16_def pcm_def Let_def)
qed

lemma channel_loop:
  "length pre = off \<Longrightarrow> 2 * length cs \<le> length zs \<Longrightarrow>
     for_each cs (writeSample b i) (off, pre @ zs)
       = Inr (off + 2 * length cs,
              pre @ concat (map (\<lambda>c. bytes16 (pcm b i c)) cs) @ drop (2 * length cs) zs)"
proof (induction cs arbitrary: pre off zs)
  case Nil
  then show ?case by simp
next
  case (Cons c cs)
  have step: "writeSample b i c (off, pre @ zs)
           = Inr (off + 2, (pre @ bytes16 (pcm b i c)) @ drop 2 zs)"
    using Cons.prems by (intro writeSample_step) simp_all
  have "for_each cs (writeSample b i) (off + 2, (pre @ bytes16 (pcm b i c)) @ drop 2 zs)
      = Inr (off + 2 + 2 * length cs,
              (pre @ bytes16 (pcm b i c)) @ concat (map (\<lambda>c. bytes16 (pcm b i c)) cs)
                @ drop (2 * length cs) (drop 2 zs))"
    using Cons.prems by (intro Cons.IH) simp_all
  then show ?case
    by (simp add: step add.commute)
qed

lemma length_frame_bytes [simp]:
  "length (frame_bytes b i) = 2 * buffer_numberOfChannels b"
  by (simp add: frame_bytes_def length_concat comp_def sum_list_triv)

lemma frame_loop:
  "length pre = off \<Longrightarrow> 2 * buffer_numberOfChannels b * length fs \<le> length zs \<Longrightarrow>
     for_each fs (\<lambda>i. for_each [0..<buffer_numberOfChannels b] (\<lambda>channel. writeSample b i channel))
        (off, pre @ zs)
       = Inr (off + 2 * buffer_numberOfChannels b * length fs,
              pre @ concat (map (frame_bytes b) fs)
                @ drop (2 * buffer_numberOfChannels b * length fs) zs)"
proof (induction fs arbitrary: pre off zs)
  case Nil
  then show ?case by simp
next
  case (Cons i fs)
  let ?C = "buffer_numberOfChannels b"
  have le: "2 * ?C \<le> length zs"
    using Cons.prems(2) by simp
  have step: "for_each [0..<?C] (writeSample b i) (off, pre @ zs)
           = Inr (off + 2 * ?C, (pre @ frame_bytes b i) @ drop (2 * ?C) zs)"
    using channel_loop [of pre off "[0..<?C]" zs b i] Cons.prems(1) le
    by (simp add: frame_bytes_def)
  have "for_each fs (\<lambda>i. for_each [0..<?C] (\<lambda>channel. writeSample b i channel))
          (off + 2 * ?C, (pre @ frame_bytes b i) @ drop (2 * ?C) zs)
      = Inr (off + 2 * ?C + 2 * ?C * length fs,
              (pre @ frame_bytes b i) @ concat (map (frame_bytes b) fs)
                @ drop (2 * ?C * length fs) (drop (2 * ?C) zs))"
    using Cons.prems by (intro Cons.IH) (simp_all add: algebra_simps)
  then show ?case
    by (simp add: step algebra_simps)
qed

lemma for_each_map_Suc:
  "for_each (map Suc xs) body s = for_each xs (\<lambda>i. body (Suc i)) s"
  by (induction xs arbitrary: s) (auto simp: and_then_def split: sum.splits)

lemma writeString_Nil [simp]: "writeString off [] view = Inr view"
  by (simp add: writeString_def)

lemma writeString_Cons:
  "writeString off (c # cs) view
     = and_then (setUint8 off (of_char c) view) (\<lambda>v. writeString (Suc off) cs v)"
proof -
  have eq: "[0..<length (c # cs)] = 0 # map Suc [0..<length cs]"
    by (simp add: upt_conv_Cons map_Suc_upt del: upt_Suc)
  show ?thesis
    unfolding writeString_def eq
    by (auto simp: for_each_map_Suc and_then_def split: sum.splits)
qed

lemma writeString_mid:
  "length pre = off \<Longrightarrow> length mid = length s \<Longrightarrow>
     writeString off s (pre @ mid @ post) = Inr (pre @ map of_char s @ post)"
proof (induction s arbitrary: pre off mid)
  case Nil
  then show ?case by simp
next
  case (Cons c cs)
  from Cons.prems obtain m ms where mid: "mid = m # ms" by (cases mid) auto
  have "store off [of_nat (of_char c)] (pre @ [m] @ ms @ post)
          = Inr (pre @ [of_nat (of_char c)] @ ms @ post)"
    using Cons.prems by (intro store_mid) simp_all
  then have st: "setUint8 off (of_char c) (pre @ mid @ post)
          = Inr ((pre @ [of_char c]) @ ms @ post)"
    by (simp add: setUint8_def mid of_nat_of_char)
  have "writeString (Suc off) cs ((pre @ [of_char c]) @ ms @ post)
          = Inr ((pre @ [of_char c]) @ map of_char cs @ post)"
    using Cons.prems mid by (intro Cons.IH) simp_all
  then show ?case
    by (simp add: writeString_Cons st)
qed

lemma setUint32_mid:
  "length pre = off \<Longrightarrow> length mid = 4 \<Longrightarrow>
     setUint32 off v True (pre @ mid @ post) = Inr (pre @ bytes32 (of_nat v) @ post)"
  by (simp add: setUint32_def store_mid)

lemma setUint16_mid:
  "length pre = off \<Longrightarrow> length mid = 2 \<Longrightarrow>
     setUint16 off v True (pre @ mid @ post) = Inr (pre @ bytes16 (of_nat v) @ post)"
  by (simp add: setUint16_def store_mid)

lemma partial_view_split:
  "k \<le> n \<Longrightarrow> partial_view h n = h @ replicate k 0 @ replicate (n - k) 0"
  by (simp add: partial_view_def replicate_add [symmetric])

lemma writeString_partial:
  assumes "length h = off" "length s \<le> n"
  shows "writeString off s (partial_view h n)
           = Inr (partial_view (h @ map of_char s) (n - length s))"
  unfolding partial_view_split [OF assms(2)]
  by (subst writeString_mid) (use assms in \<open>simp_all add: partial_view_def\<close>)

lemma setUint32_partial:
  assumes "length h = off" "4 \<le> n"
  shows "setUint32 off v True (partial_view h n)
           = Inr (partial_view (h @ bytes32 (of_nat v)) (n - 4))"
  unfolding partial_view_split [OF assms(2)]
  by (subst setUint32_mid) (use assms in \<open>simp_all add: partial_view_def\<close>)

lemma setUint16_partial:
  assumes "length h = off" "2 \<le> n"
  shows "setUint16 off v True (partial_view h n)
           = Inr (partial_view (h @ bytes16 (of_nat v)) (n - 2))"
  unfolding partial_view_split [OF assms(2)]
  by (subst setUint16_mid) (use assms in \<open>simp_all add: partial_view_def\<close>)

lemma length_wav_header [simp]: "length (wav_header n c r) = 44"
  by (simp add: wav_header_def)

lemma length_payload [simp]:
  "length (payload b) = buffer_length b * buffer_numberOfChannels b * 2"
  by (simp add: payload_def length_concat comp_def sum_list_triv)

text \<open>
  The encoder never throws: every write lies inside the buffer, and the result is the
  header followed by the payload.
\<close>

lemma audioBufferToWav_eq:
  "audioBufferToWav b
     = Inr (wav_header (buffer_length b) (buffer_numberOfChannels b) (buffer_sampleRate b)
            @ payload b)"
proof -
  let ?N = "buffer_length b" and ?C = "buffer_numberOfChannels b" and ?R = "buffer_sampleRate b"
  let ?m = "?N * ?C * 2"
  have init: "replicate (44 + ?m) 0 = partial_view [] (44 + ?m)"
    by (simp add: partial_view_def)
  have loop: "for_each [0..<?N] (\<lambda>i. for_each [0..<?C] (\<lambda>channel. writeSample b i channel))
                (44, wav_header ?N ?C ?R @ replicate ?m 0)
              = Inr (44 + 2 * ?C * ?N, wav_header ?N ?C ?R @ payload b @ [])"
    using frame_loop [of "wav_header ?N ?C ?R" 44 b "[0..<?N]" "replicate ?m 0"]
    by (simp add: payload_def mult.commute mult.left_commute)
  have hdr: "partial_view (map of_char ''RIFF'' @ bytes32 (of_nat (36 + ?m)) @ map of_char ''WAVE''
     @ map of_char ''fmt '' @ bytes32 16 @ bytes16 1 @ bytes16 (of_nat ?C)
     @ bytes32 (of_nat ?R)
     @ bytes32 (of_nat (?R * ?C * 2)) @ bytes16 (of_nat (?C * 2)) @ bytes16 16
     @ map of_char ''data'' @ bytes32 (of_nat ?m)) ?m = wav_header ?N ?C ?R @ replicate ?m 0"
    by (simp add: partial_view_def wav_header_def)
  show ?thesis
    unfolding audioBufferToWav_def Let_def init
    by (simp add: writeString_partial setUint32_partial setUint16_partial hdr loop
          del: of_nat_add of_nat_mult list.map)
qed

section \<open>Bytes and words\<close>

lemma unat_low_byte: "unat (ucast (w :: 'a::len word) :: 8 word) = unat w mod 256"
  by (simp add: take_bit_eq_mod unsigned_ucast_eq)

lemma unat_drop: "unat (drop_bit n (w :: 'a::len word)) = unat w div 2 ^ n"
  unfolding unat_drop_bit_eq by (simp add: drop_bit_eq_div)

lemma le16_bytes16:
  "unat (ucast w :: 8 word) + 256 * unat (ucast (drop_bit 8 w) :: 8 word) = unat (w :: 16 word)"
proof -
  have "unat w < 65536" using unsigned_less [of w, where 'a = nat] by simp
  then show ?thesis
    by (simp add: unat_low_byte unat_drop)
qed

lemma split_bytes32:
  fixes n :: nat
  assumes "n < 4294967296"
  shows "n mod 256 + 256 * (n div 256 mod 256) + 65536 * (n div 65536 mod 256)
           + 16777216 * (n div 16777216) = n"
proof -
  have a: "n = 256 * (n div 256) + n mod 256" by simp
  have b: "n div 256 = 256 * (n div 65536) + n div 256 mod 256"
    using div_mult2_eq [of n 256 256] by simp
  have c: "n div 65536 = 256 * (n div 16777216) + n div 65536 mod 256"
    using div_mult2_eq [of n 65536 256] by simp
  show ?thesis
    using a b c by linarith
qed

lemma le32_bytes32:
  "unat (ucast w :: 8 word) + 256 * unat (ucast (drop_bit 8 w) :: 8 word)
     + 65536 * unat (ucast (drop_bit 16 w) :: 8 word)
     + 16777216 * unat (ucast (drop_bit 24 w) :: 8 word) = unat (w :: 32 word)"
proof -
  have lt: "unat w < 4294967296" using unsigned_less [of w, where 'a = nat] by simp
  then have "unat w div 16777216 < 256" by simp
  then have e3: "unat (ucast (drop_bit 24 w) :: 8 word) = unat w div 16777216"
    by (simp only: unat_low_byte unat_drop mod_less) simp
  have e2: "unat (ucast (drop_bit 16 w) :: 8 word) = unat w div 65536 mod 256"
    by (simp only: unat_low_byte unat_drop) simp
  have e1: "unat (ucast (drop_bit 8 w) :: 8 word) = unat w div 256 mod 256"
    by (simp only: unat_low_byte unat_drop) simp
  have e0: "unat (ucast w :: 8 word) = unat w mod 256"
    by (rule unat_low_byte)
  show ?thesis
    by (simp only: e0 e1 e2 e3) (rule split_bytes32 [OF lt])
qed

lemma getUint16_bytes16:
  assumes "[view ! off, view ! (off + 1)] = bytes16 w"
  shows "getUint16 off view = unat w"
proof -
  from assms have "view ! off = ucast w" "view ! (off + 1) = ucast (drop_bit 8 w)"
    by (simp_all add: bytes16_def)
  then show ?thesis
    by (simp only: getUint16_def le16_bytes16)
qed

lemma getInt16_bytes16:
  assumes "[view ! off, view ! (off + 1)] = bytes16 w"
  shows "getInt16 off view = sint w"
  by (simp add: getInt16_def getUint16_bytes16 [OF assms])

lemma getUint32_bytes32:
  assumes "[view ! off, view ! (off + 1), view ! (off + 2), view ! (off + 3)] = bytes32 w"
  shows "getUint32 off view = unat w"
proof -
  from assms have "view ! off = ucast w" "view ! (off + 1) = ucast (drop_bit 8 w)"
    "view ! (off + 2) = ucast (drop_bit 16 w)" "view ! (off + 3) = ucast (drop_bit 24 w)"
    by (simp_all add: bytes32_def)
  then show ?thesis
    by (simp only: getUint32_def le32_bytes32)
qed

lemma unat_of_nat32: "unat (of_nat x :: 32 word) = x mod 4294967296"
  by (simp add: unat_of_nat)

lemma unat_of_nat16: "unat (of_nat x :: 16 word) = x mod 65536"
  by (simp add: unat_of_nat)

section \<open>The payload\<close>

lemma toInteger_bounds:
  assumes "- 1 \<le> x" "x \<le> 1"
  shows "- 32767 \<le> toInteger (x * 32767)" "toInteger (x * 32767) \<le> 32767"
proof -
  have "x * 32767 \<le> 32767" "- 32767 \<le> x * 32767" using assms by simp_all
  then show "- 32767 \<le> toInteger (x * 32767)" "toInteger (x * 32767) \<le> 32767"
    by (auto simp: toInteger_def le_floor_iff floor_le_iff ceiling_le_iff le_ceiling_iff)
qed

lemma quantize_bounds: "- 32767 \<le> quantize v \<and> quantize v \<le> 32767"
proof (cases v)
  case (Finite x)
  have "- 1 \<le> max (- 1) (min 1 x)" "max (- 1) (min 1 x) \<le> 1" by simp_all
  from toInteger_bounds [OF this] show ?thesis
    by (simp add: quantize_def Finite)
qed (simp_all add: quantize_def)

lemma toInt16_clamp:
  "toInt16 (scale (math_max (Finite (- 1)) (math_min (Finite 1) v)) 32767) = of_int (quantize v)"
  by (cases v) (simp_all add: quantize_def toInteger_def)

lemma sint_pcm: "sint (pcm b i c) = quantize (buffer_getChannelData b c i)"
proof -
  let ?q = "quantize (buffer_getChannelData b c i)"
  have "- 32768 \<le> ?q" "?q < 32768"
    using quantize_bounds [of "buffer_getChannelData b c i"] by simp_all
  then have "sint (of_int ?q :: 16 word) = ?q"
    by (simp add: signed_of_int signed_take_bit_int_eq_self)
  then show ?thesis
    by (simp add: pcm_def toInt16_clamp)
qed

lemma concat_nth_uniform:
  "\<forall>x\<in>set xs. length (f x) = m \<Longrightarrow> i < length xs \<Longrightarrow> j < m \<Longrightarrow>
     concat (map f xs) ! (i * m + j) = f (xs ! i) ! j"
proof (induction xs arbitrary: i)
  case Nil
  then show ?case by simp
next
  case (Cons x xs)
  show ?case
  proof (cases i)
    case 0
    with Cons.prems show ?thesis by (simp add: nth_append)
  next
    case (Suc k)
    with Cons.prems have "concat (map f xs) ! (k * m + j) = f (xs ! k) ! j"
      by (intro Cons.IH) simp_all
    with Cons.prems Suc show ?thesis
      by (simp add: nth_append add.assoc)
  qed
qed

lemma frame_bytes_nth:
  assumes "c < buffer_numberOfChannels b" "j < 2"
  shows "frame_bytes b i ! (c * 2 + j) = bytes16 (pcm b i c) ! j"
  using concat_nth_uniform [of "[0..<buffer_numberOfChannels b]" "\<lambda>c. bytes16 (pcm b i c)" 2 c j] assms
  by (simp add: frame_bytes_def)

lemma payload_nth:
  assumes "i < buffer_length b" "c < buffer_numberOfChannels b" "j < 2"
  shows "payload b ! ((i * buffer_numberOfChannels b + c) * 2 + j) = bytes16 (pcm b i c) ! j"
proof -
  let ?C = "buffer_numberOfChannels b"
  have "c * 2 + j < 2 * ?C" using assms by simp
  then have "payload b ! (i * (2 * ?C) + (c * 2 + j)) = frame_bytes b i ! (c * 2 + j)"
    using concat_nth_uniform [of "[0..<buffer_length b]" "frame_bytes b" "2 * ?C" i "c * 2 + j"] assms
    by (simp add: payload_def)
  moreover have "(i * ?C + c) * 2 + j = i * (2 * ?C) + (c * 2 + j)"
    by (simp add: algebra_simps)
  ultimately show ?thesis
    using frame_bytes_nth [OF assms(2,3), of i] by (simp only:)
qed

lemma sample_bytes:
  assumes "i < buffer_length b" "c < buffer_numberOfChannels b"
  defines "off \<equiv> 44 + (i * buffer_numberOfChannels b + c) * 2"
  defines "bytes \<equiv> wav_header (buffer_length b) (buffer_numberOfChannels b) (buffer_sampleRate b) @ payload b"
  shows "[bytes ! off, bytes ! (off + 1)] = bytes16 (pcm b i c)"
proof -
  have "bytes ! off = bytes16 (pcm b i c) ! 0"
    using payload_nth [OF assms(1,2), of 0] by (simp add: off_def bytes_def nth_append)
  moreover have "bytes ! (off + 1) = bytes16 (pcm b i c) ! 1"
    using payload_nth [OF assms(1,2), of 1] by (simp add: off_def bytes_def nth_append)
  ultimately show ?thesis
    by (simp add: bytes16_def)
qed

lemma pcm_range:
  assumes "k < buffer_length b * buffer_numberOfChannels b"
  defines "bytes \<equiv> wav_header (buffer_length b) (buffer_numberOfChannels b) (buffer_sampleRate b) @ payload b"
  shows "- 32767 \<le> getInt16 (44 + 2 * k) bytes \<and> getInt16 (44 + 2 * k) bytes \<le> 32767"
proof -
  let ?C = "buffer_numberOfChannels b"
  from assms(1) have C: "0 < ?C" by (cases "?C = 0") simp_all
  have i: "k div ?C < buffer_length b"
    using assms(1) C by (simp add: less_mult_imp_div_less)
  have c: "k mod ?C < ?C" using C by simp
  have k: "44 + 2 * k = 44 + (k div ?C * ?C + k mod ?C) * 2" by simp
  have "[bytes ! (44 + 2 * k), bytes ! (44 + 2 * k + 1)] = bytes16 (pcm b (k div ?C) (k mod ?C))"
    unfolding k bytes_def by (rule sample_bytes [OF i c])
  from getInt16_bytes16 [OF this] show ?thesis
    using quantize_bounds [of "buffer_getChannelData b (k mod ?C) (k div ?C)"] by (simp add: sint_pcm)
qed

section \<open>Buffers\<close>

lemma createBuffer_simps [simp]:
  "buffer_length (createBuffer c n r) = n"
  "buffer_numberOfChannels (createBuffer c n r) = c"
  "buffer_sampleRate (createBuffer c n r) = r"
  "buffer_getChannelData (createBuffer c n r) ch i = Finite 0"
  by (simp_all add: createBuffer_def)

lemma setSample_simps [simp]:
  "buffer_length (setSample b c i v) = buffer_length b"
  "buffer_numberOfChannels (setSample b c i v) = buffer_numberOfChannels b"
  "buffer_sampleRate (setSample b c i v) = buffer_sampleRate b"
  "buffer_getChannelData (setSample b c i v) ch j
     = (if ch = c \<and> j = i then v else buffer_getChannelData b ch j)"
  by (simp_all add: setSample_def)

lemma fold_setSample:
  "buffer_length (fold (\<lambda>i b. setSample b 0 i (f i)) xs b) = buffer_length b"
  "buffer_numberOfChannels (fold (\<lambda>i b. setSample b 0 i (f i)) xs b) = buffer_numberOfChannels b"
  "buffer_sampleRate (fold (\<lambda>i b. setSample b 0 i (f i)) xs b) = buffer_sampleRate b"
  "buffer_getChannelData (fold (\<lambda>i b. setSample b 0 i (f i)) xs b) ch j
     = (if ch = 0 \<and> j \<in> set xs then f j else buffer_getChannelData b ch j)"
  by (induction xs arbitrary: b) auto

lemma fillChannel_simps [simp]:
  "buffer_length (fillChannel env text v r b) = buffer_length b"
  "buffer_numberOfChannels (fillChannel env text v r b) = buffer_numberOfChannels b"
  "buffer_sampleRate (fillChannel env text v r b) = buffer_sampleRate b"
  "buffer_getChannelData (fillChannel env text v r b) ch j
     = (if ch = 0 \<and> j < samples text r then stored env text v r j
        else buffer_getChannelData b ch j)"
  by (simp_all add: fillChannel_def fold_setSample)

text \<open>
  Where the platform gives a context and makes the buffer, the synthesizer succeeds: its
  result is the encoding of the buffer it filled.
\<close>

lemma createSyntheticAudio_on:
  assumes "new_AudioContext env = Inr r"
    and "createBuffer_error env 1 (samples text r) r = None"
  shows "createSyntheticAudio env text v =
     Inr \<lparr>blob_content =
            wav_header (samples text r) 1 r
              @ payload (fillChannel env text v r (createBuffer 1 (samples text r) r)),
          blob_type = ''audio/wav''\<rparr>"
  using assms by (simp add: createSyntheticAudio_def audioBufferToWav_eq Let_def)

text \<open>The end-to-end example of the specification: two words at 8000 Hz.\<close>

lemma samples_hello: "samples ''Hello world'' 8000 = 16000"
proof -
  have wc: "wordCount ''Hello world'' = 2" by code_simp
  have d: "durationSeconds ''Hello world'' = 2"
    unfolding durationSeconds_def wc by code_simp
  show ?thesis
    unfolding samples_def d of_nat_numeral by code_simp
qed

section \<open>The payload values\<close>

lemma one_sample_payload:
  "payload (setSample (createBuffer 1 1 r) 0 0 v) = bytes16 (of_int (quantize v))"
  by (simp add: payload_def frame_bytes_def pcm_def toInt16_clamp)

lemma quantize_quarter: "quantize (Finite (1/4)) = 8191"
  by (simp add: quantize_def toInteger_def)

lemma bytes16_8191: "bytes16 8191 = [255, 31]"
  by (simp add: bytes16_def)

text \<open>
  Claim C2, as the code has it. For every sample buffer, frame \<open>i\<close> and channel
  \<open>c\<close> of it, the two bytes at offset \<open>44 + (i * channelCount + c) * 2\<close> are the
  little-endian 16-bit two's complement of the clamped sample times 32767 truncated
  towards zero (0 for not-a-number), and they decode to that integer.
\<close>

theorem payload_sample_truncated:
  assumes "i < buffer_length b" and "c < buffer_numberOfChannels b"
  shows "\<exists>bytes. audioBufferToWav b = Inr bytes
           \<and> [bytes ! (44 + (i * buffer_numberOfChannels b + c) * 2),
               bytes ! (44 + (i * buffer_numberOfChannels b + c) * 2 + 1)]
                = bytes16 (of_int (quantize (buffer_getChannelData b c i)))
           \<and> getInt16 (44 + (i * buffer_numberOfChannels b + c) * 2) bytes
                = quantize (buffer_getChannelData b c i)"
proof -
  let ?bytes = "wav_header (buffer_length b) (buffer_numberOfChannels b) (buffer_sampleRate b) @ payload b"
  let ?off = "44 + (i * buffer_numberOfChannels b + c) * 2"
  have pair: "[?bytes ! ?off, ?bytes ! (?off + 1)] = bytes16 (pcm b i c)"
    using sample_bytes [OF assms] by simp
  have w: "pcm b i c = of_int (quantize (buffer_getChannelData b c i))"
    by (simp add: pcm_def toInt16_clamp)
  have "getInt16 ?off ?bytes = quantize (buffer_getChannelData b c i)"
    using getInt16_bytes16 [OF pair] by (simp add: sint_pcm)
  with pair w audioBufferToWav_eq [of b] show ?thesis
    by (intro exI [of _ ?bytes]) simp
qed

theorem payload_sample_truncated_witness:
  "\<exists>bytes. audioBufferToWav (setSample (createBuffer 1 1 8000) 0 0 (Finite (1/4))) = Inr bytes
     \<and> [bytes ! 44, bytes ! 45] = [255, 31] \<and> getInt16 44 bytes = 8191"
  using payload_sample_truncated [of 0 "setSample (createBuffer 1 1 8000) 0 0 (Finite (1/4))" 0]
  by (simp add: quantize_quarter bytes16_8191)

text \<open>
  Claim C2, as the specification states it, fails where rounding and truncation differ:
  the sample 0.25 scales to 8191.75, which the code writes as 8191 (bytes 255, 31) and
  the specification rounds to 8192.
\<close>

theorem payload_rounding_counterexample:
  "map_sum id (drop 44) (audioBufferToWav (setSample (createBuffer 1 1 8000) 0 0 (Finite (1/4))))
     = Inr [255, 31]
   \<and> map_sum id (getInt16 44) (audioBufferToWav (setSample (createBuffer 1 1 8000) 0 0 (Finite (1/4))))
     = Inr 8191
   \<and> spec_quantize (1/4) = 8192"
proof -
  let ?b = "setSample (createBuffer 1 1 8000) 0 0 (Finite (1/4))"
  have p: "payload ?b = [255, 31]"
    by (simp only: one_sample_payload quantize_quarter of_int_numeral bytes16_8191)
  have e: "audioBufferToWav ?b = Inr (wav_header 1 1 8000 @ [255, 31])"
    unfolding audioBufferToWav_eq p by simp
  have g: "getInt16 44 (wav_header 1 1 8000 @ [255, 31]) = 8191"
    by (simp add: getInt16_def getUint16_def nth_append)
  have d: "drop 44 (wav_header 1 1 8000 @ [255, 31]) = [255, 31]"
    by simp
  have r: "spec_quantize (1/4) = 8192"
    by (simp add: spec_quantize_def round_def)
  show ?thesis
    unfolding e using g d r by simp
qed

text \<open>
  Claim C7. For every sample buffer the encoder succeeds, and every 16-bit value of the
  payload decodes to an integer between -32767 and 32767; so does every value of the
  container that the synthesizer makes from any text and voice name, on any platform
  that gives it an audio context and the buffer.
\<close>

theorem pcm_values_in_range:
  "(\<exists>bytes. audioBufferToWav b = Inr bytes
      \<and> length bytes = 44 + buffer_length b * buffer_numberOfChannels b * 2
      \<and> (\<forall>k < buffer_length b * buffer_numberOfChannels b.
            - 32767 \<le> getInt16 (44 + 2 * k) bytes \<and> getInt16 (44 + 2 * k) bytes \<le> 32767))
   \<and> (new_AudioContext env = Inr sampleRate
        \<and> createBuffer_error env 1 (samples text sampleRate) sampleRate = None \<longrightarrow>
       (\<exists>blob. createSyntheticAudio env text voiceName = Inr blob
          \<and> length (blob_content blob) = 44 + samples text sampleRate * 2
          \<and> (\<forall>k < samples text sampleRate.
                - 32767 \<le> getInt16 (44 + 2 * k) (blob_content blob)
                \<and> getInt16 (44 + 2 * k) (blob_content blob) \<le> 32767)))"
proof (intro conjI impI)
  show "\<exists>bytes. audioBufferToWav b = Inr bytes
      \<and> length bytes = 44 + buffer_length b * buffer_numberOfChannels b * 2
      \<and> (\<forall>k < buffer_length b * buffer_numberOfChannels b.
            - 32767 \<le> getInt16 (44 + 2 * k) bytes \<and> getInt16 (44 + 2 * k) bytes \<le> 32767)"
    using pcm_range [of _ b] by (simp add: audioBufferToWav_eq)
next
  assume "new_AudioContext env = Inr sampleRate
        \<and> createBuffer_error env 1 (samples text sampleRate) sampleRate = None"
  then have e: "createSyntheticAudio env text voiceName =
     Inr \<lparr>blob_content =
            wav_header (samples text sampleRate) 1 sampleRate
              @ payload (fillChannel env text voiceName sampleRate
                           (createBuffer 1 (samples text sampleRate) sampleRate)),
          blob_type = ''audio/wav''\<rparr>"
    by (simp add: createSyntheticAudio_on)
  let ?b = "fillChannel env text voiceName sampleRate
              (createBuffer 1 (samples text sampleRate) sampleRate)"
  have "\<forall>k < samples text sampleRate.
            - 32767 \<le> getInt16 (44 + 2 * k) (wav_header (samples text sampleRate) 1 sampleRate @ payload ?b)
            \<and> getInt16 (44 + 2 * k) (wav_header (samples text sampleRate) 1 sampleRate @ payload ?b) \<le> 32767"
    using pcm_range [of _ ?b] by simp
  then show "\<exists>blob. createSyntheticAudio env text voiceName = Inr blob
      \<and> length (blob_content blob) = 44 + samples text sampleRate * 2
      \<and> (\<forall>k < samples text sampleRate.
            - 32767 \<le> getInt16 (44 + 2 * k) (blob_content blob)
            \<and> getInt16 (44 + 2 * k) (blob_content blob) \<le> 32767)"
    by (simp add: e)
qed

theorem pcm_values_in_range_witness:
  "(\<exists>bytes. audioBufferToWav (setSample (createBuffer 1 1 8000) 0 0 (Finite 2)) = Inr bytes
      \<and> length bytes = 46 \<and> - 32767 \<le> getInt16 44 bytes \<and> getInt16 44 bytes \<le> 32767)
   \<and> (\<exists>blob. createSyntheticAudio (example_platform 8000) ''Hello world'' ''default'' = Inr blob
      \<and> length (blob_content blob) = 32044
      \<and> - 32767 \<le> getInt16 44 (blob_content blob) \<and> getInt16 44 (blob_content blob) \<le> 32767)"
proof
  let ?b = "setSample (createBuffer 1 1 8000) 0 0 (Finite 2)"
  note th = pcm_values_in_range [of ?b "example_platform 8000" 8000 "''Hello world''" "''default''"]
  from th obtain bytes where b: "audioBufferToWav ?b = Inr bytes"
    and l: "length bytes = 44 + buffer_length ?b * buffer_numberOfChannels ?b * 2"
    and r: "\<forall>k < buffer_length ?b * buffer_numberOfChannels ?b.
              - 32767 \<le> getInt16 (44 + 2 * k) bytes \<and> getInt16 (44 + 2 * k) bytes \<le> 32767"
    by blast
  have "(0::nat) < buffer_length ?b * buffer_numberOfChannels ?b" by simp
  with r have "- 32767 \<le> getInt16 (44 + 2 * 0) bytes \<and> getInt16 (44 + 2 * 0) bytes \<le> 32767"
    by blast
  with b l show "\<exists>bytes. audioBufferToWav ?b = Inr bytes
      \<and> length bytes = 46 \<and> - 32767 \<le> getInt16 44 bytes \<and> getInt16 44 bytes \<le> 32767"
    by simp
  have "new_AudioContext (example_platform 8000) = Inr 8000
        \<and> createBuffer_error (example_platform 8000) 1 (samples ''Hello world'' 8000) 8000 = None"
    by (simp add: example_platform_def)
  with th obtain blob where c: "createSyntheticAudio (example_platform 8000) ''Hello world'' ''default'' = Inr blob"
    and m: "length (blob_content blob) = 44 + samples ''Hello world'' 8000 * 2"
    and s: "\<forall>k < samples ''Hello world'' 8000.
                - 32767 \<le> getInt16 (44 + 2 * k) (blob_content blob)
                \<and> getInt16 (44 + 2 * k) (blob_content blob) \<le> 32767"
    by blast
  have "(0::nat) < samples ''Hello world'' 8000" by (simp add: samples_hello)
  with s have "- 32767 \<le> getInt16 (44 + 2 * 0) (blob_content blob)
      \<and> getInt16 (44 + 2 * 0) (blob_content blob) \<le> 32767"
    by blast
  with c m show "\<exists>blob. createSyntheticAudio (example_platform 8000) ''Hello world'' ''default'' = Inr blob
      \<and> length (blob_content blob) = 32044
      \<and> - 32767 \<le> getInt16 44 (blob_content blob) \<and> getInt16 44 (blob_content blob) \<le> 32767"
    by (simp add: samples_hello)
qed

section \<open>The header\<close>

lemma wav_header_explicit:
  "wav_header n c r =
     [82, 73, 70, 70] @ bytes32 (of_nat (36 + n * c * 2)) @ [87, 65, 86, 69, 102, 109, 116, 32]
     @ bytes32 16 @ bytes16 1 @ bytes16 (of_nat c) @ bytes32 (of_nat r)
     @ bytes32 (of_nat (r * c * 2)) @ bytes16 (of_nat (c * 2)) @ bytes16 16
     @ [100, 97, 116, 97] @ bytes32 (of_nat (n * c * 2))"
  by (simp add: wav_header_def)

lemma header_fields:
  fixes n c r :: nat and p :: "8 word list"
  defines "bytes \<equiv> wav_header n c r @ p"
  shows "take 4 bytes = map of_char ''RIFF''"
    and "getUint32 4 bytes = (36 + n * c * 2) mod 4294967296"
    and "take 4 (drop 8 bytes) = map of_char ''WAVE''"
    and "take 4 (drop 12 bytes) = map of_char ''fmt ''"
    and "getUint32 16 bytes = 16"
    and "getUint16 20 bytes = 1"
    and "getUint16 22 bytes = c mod 65536"
    and "getUint32 24 bytes = r mod 4294967296"
    and "getUint32 28 bytes = (r * c * 2) mod 4294967296"
    and "getUint16 32 bytes = (c * 2) mod 65536"
    and "getUint16 34 bytes = 16"
    and "take 4 (drop 36 bytes) = map of_char ''data''"
    and "getUint32 40 bytes = (n * c * 2) mod 4294967296"
proof -
  have e: "bytes =
     [82, 73, 70, 70] @ bytes32 (of_nat (36 + n * c * 2)) @ [87, 65, 86, 69, 102, 109, 116, 32]
     @ bytes32 16 @ bytes16 1 @ bytes16 (of_nat c) @ bytes32 (of_nat r)
     @ bytes32 (of_nat (r * c * 2)) @ bytes16 (of_nat (c * 2)) @ bytes16 16
     @ [100, 97, 116, 97] @ bytes32 (of_nat (n * c * 2)) @ p"
    by (simp add: bytes_def wav_header_explicit)
  show "take 4 bytes = map of_char ''RIFF''"
    by (simp add: e)
  show "take 4 (drop 8 bytes) = map of_char ''WAVE''"
    by (simp add: e bytes32_def)
  show "take 4 (drop 12 bytes) = map of_char ''fmt ''"
    by (simp add: e bytes32_def)
  show "take 4 (drop 36 bytes) = map of_char ''data''"
    by (simp add: e bytes32_def bytes16_def)
  have "getUint32 4 bytes = unat (of_nat (36 + n * c * 2) :: 32 word)"
    by (rule getUint32_bytes32) (simp add: e bytes32_def)
  then show "getUint32 4 bytes = (36 + n * c * 2) mod 4294967296"
    by (simp only: unat_of_nat32)
  have "getUint32 16 bytes = unat (16 :: 32 word)"
    by (rule getUint32_bytes32) (simp add: e bytes32_def)
  then show "getUint32 16 bytes = 16" by simp
  have "getUint16 20 bytes = unat (1 :: 16 word)"
    by (rule getUint16_bytes16) (simp add: e bytes32_def bytes16_def)
  then show "getUint16 20 bytes = 1" by simp
  have "getUint16 22 bytes = unat (of_nat c :: 16 word)"
    by (rule getUint16_bytes16) (simp add: e bytes32_def bytes16_def)
  then show "getUint16 22 bytes = c mod 65536"
    by (simp only: unat_of_nat16)
  have "getUint32 24 bytes = unat (of_nat r :: 32 word)"
    by (rule getUint32_bytes32) (simp add: e bytes32_def bytes16_def)
  then show "getUint32 24 bytes = r mod 4294967296"
    by (simp only: unat_of_nat32)
  have "getUint32 28 bytes = unat (of_nat (r * c * 2) :: 32 word)"
    by (rule getUint32_bytes32) (simp add: e bytes32_def bytes16_def)
  then show "getUint32 28 bytes = (r * c * 2) mod 4294967296"
    by (simp only: unat_of_nat32)
  have "getUint16 32 bytes = unat (of_nat (c * 2) :: 16 word)"
    by (rule getUint16_bytes16) (simp add: e bytes32_def bytes16_def)
  then show "getUint16 32 bytes = (c * 2) mod 65536"
    by (simp only: unat_of_nat16)
  have "getUint16 34 bytes = unat (16 :: 16 word)"
    by (rule getUint16_bytes16) (simp add: e bytes32_def bytes16_def)
  then show "getUint16 34 bytes = 16" by simp
  have "getUint32 40 bytes = unat (of_nat (n * c * 2) :: 32 word)"
    by (rule getUint32_bytes32) (simp add: e bytes32_def bytes16_def)
  then show "getUint32 40 bytes = (n * c * 2) mod 4294967296"
    by (simp only: unat_of_nat32)
qed

text \<open>
  Claim C4, as the code has it. The setters reduce a value modulo the size of its field,
  so the claim holds for the buffers whose sizes fit the fields: if
  \<open>36 + N * C * 2\<close>, the sample rate \<open>R\<close> and the byte rate \<open>R * C * 2\<close> are below
  \<open>2 ^ 32\<close> and the block align \<open>C * 2\<close> is below \<open>2 ^ 16\<close>, the output has
  \<open>44 + N * C * 2\<close> bytes, its header is the one of the specification's table, and
  the little-endian fields decode to the channel count, the sample rate, 16 bits per
  sample and the number of data bytes that were passed in.
\<close>

theorem wav_container_layout:
  assumes "36 + buffer_length b * buffer_numberOfChannels b * 2 < 2 ^ 32"
    and "buffer_sampleRate b < 2 ^ 32"
    and "buffer_sampleRate b * buffer_numberOfChannels b * 2 < 2 ^ 32"
    and "buffer_numberOfChannels b * 2 < 2 ^ 16"
  shows "\<exists>bytes. audioBufferToWav b = Inr bytes
     \<and> length bytes = 44 + buffer_length b * buffer_numberOfChannels b * 2
     \<and> take 4 bytes = map of_char ''RIFF''
     \<and> getUint32 4 bytes = 36 + buffer_length b * buffer_numberOfChannels b * 2
     \<and> take 4 (drop 8 bytes) = map of_char ''WAVE''
     \<and> take 4 (drop 12 bytes) = map of_char ''fmt ''
     \<and> getUint32 16 bytes = 16
     \<and> getUint16 20 bytes = 1
     \<and> getUint16 22 bytes = buffer_numberOfChannels b
     \<and> getUint32 24 bytes = buffer_sampleRate b
     \<and> getUint32 28 bytes = buffer_sampleRate b * buffer_numberOfChannels b * 2
     \<and> getUint16 32 bytes = buffer_numberOfChannels b * 2
     \<and> getUint16 34 bytes = 16
     \<and> take 4 (drop 36 bytes) = map of_char ''data''
     \<and> getUint32 40 bytes = buffer_length b * buffer_numberOfChannels b * 2"
proof -
  let ?N = "buffer_length b" and ?C = "buffer_numberOfChannels b" and ?R = "buffer_sampleRate b"
  let ?bytes = "wav_header ?N ?C ?R @ payload b"
  note f = header_fields [of ?N ?C ?R "payload b"]
  have c: "?C < 65536" using assms(4) by simp
  have d: "?N * ?C * 2 < 4294967296" using assms(1) by simp
  have "audioBufferToWav b = Inr ?bytes" by (rule audioBufferToWav_eq)
  moreover have "length ?bytes = 44 + ?N * ?C * 2" by simp
  moreover have "getUint32 4 ?bytes = 36 + ?N * ?C * 2"
    using f(2) assms(1) by simp
  moreover have "getUint16 22 ?bytes = ?C"
    using f(7) c by simp
  moreover have "getUint32 24 ?bytes = ?R"
    using f(8) assms(2) by simp
  moreover have "getUint32 28 ?bytes = ?R * ?C * 2"
    using f(9) assms(3) by simp
  moreover have "getUint16 32 ?bytes = ?C * 2"
    using f(10) assms(4) by simp
  moreover have "getUint32 40 ?bytes = ?N * ?C * 2"
    using f(13) d by simp
  ultimately show ?thesis
    using f(1,3,4,5,6,11,12) by (intro exI [of _ ?bytes]) (simp only: simp_thms)
qed

text \<open>
  The witness is the specification's example: "Hello world" at 8000 Hz gives 16000
  samples and a container of 32044 bytes.
\<close>

theorem wav_container_layout_witness:
  "\<exists>blob. createSyntheticAudio (example_platform 8000) ''Hello world''
             ''voice-female-professional-1'' = Inr blob
     \<and> length (blob_content blob) = 32044
     \<and> take 4 (blob_content blob) = map of_char ''RIFF''
     \<and> getUint32 4 (blob_content blob) = 32036
     \<and> take 4 (drop 8 (blob_content blob)) = map of_char ''WAVE''
     \<and> getUint16 22 (blob_content blob) = 1
     \<and> getUint32 24 (blob_content blob) = 8000
     \<and> getUint32 28 (blob_content blob) = 16000
     \<and> getUint16 32 (blob_content blob) = 2
     \<and> getUint16 34 (blob_content blob) = 16
     \<and> getUint32 40 (blob_content blob) = 32000"
proof -
  let ?b = "fillChannel (example_platform 8000) ''Hello world'' ''voice-female-professional-1'' 8000
              (createBuffer 1 (samples ''Hello world'' 8000) 8000)"
  have "36 + buffer_length ?b * buffer_numberOfChannels ?b * 2 < 2 ^ 32"
    "buffer_sampleRate ?b < 2 ^ 32"
    "buffer_sampleRate ?b * buffer_numberOfChannels ?b * 2 < 2 ^ 32"
    "buffer_numberOfChannels ?b * 2 < 2 ^ 16"
    by (simp_all add: samples_hello)
  from wav_container_layout [OF this] obtain bytes where
    "audioBufferToWav ?b = Inr bytes"
    "length bytes = 32044"
    "take 4 bytes = map of_char ''RIFF''"
    "getUint32 4 bytes = 32036"
    "take 4 (drop 8 bytes) = map of_char ''WAVE''"
    "getUint16 22 bytes = 1"
    "getUint32 24 bytes = 8000"
    "getUint32 28 bytes = 16000"
    "getUint16 32 bytes = 2"
    "getUint16 34 bytes = 16"
    "getUint32 40 bytes = 32000"
    by (auto simp: samples_hello)
  then show ?thesis
    by (simp add: createSyntheticAudio_def example_platform_def Let_def)
qed

text \<open>
  Claim C4, as the specification states it for every buffer, fails where a size passes
  its field: for one channel of \<open>2 ^ 31\<close> frames the data are \<open>2 ^ 32\<close> bytes, the
  data size field holds 0 and the chunk size field holds 36.
\<close>

theorem wav_data_size_counterexample:
  "map_sum id (getUint32 40) (audioBufferToWav (createBuffer 1 2147483648 48000)) = Inr 0
   \<and> map_sum id (getUint32 4) (audioBufferToWav (createBuffer 1 2147483648 48000)) = Inr 36
   \<and> buffer_length (createBuffer 1 2147483648 48000)
        * buffer_numberOfChannels (createBuffer 1 2147483648 48000) * 2 = 4294967296"
proof -
  let ?b = "createBuffer 1 2147483648 48000"
  note f = header_fields [of 2147483648 1 48000 "payload ?b"]
  have e: "audioBufferToWav ?b = Inr (wav_header 2147483648 1 48000 @ payload ?b)"
    using audioBufferToWav_eq [of ?b] by simp
  show ?thesis
    unfolding e using f(2) f(13) by simp
qed

section \<open>The speech interface\<close>

text \<open>
  Claim C9, as the specification states it, fails: without the speech-synthesis handle
  \<open>generateSpeech\<close> rejects before it reaches the synthetic generation, on a platform
  that would have made the audio.
\<close>

theorem generateSpeech_without_handle_counterexample:
  "generateSpeech (example_platform 8000) (new_BrowserTTS None) ''Hello world''
       ''voice-female-professional-1''
     = (Inl (Error ''Speech synthesis not supported''), [])"
  by (simp add: generateSpeech_def new_BrowserTTS_def)

text \<open>
  Claim C9, as the code has it. Without the handle \<open>generateSpeech\<close> rejects with
  the error "Speech synthesis not supported", on every platform and for every text and
  voice: it produces no audio and speaks nothing.
\<close>

theorem generateSpeech_without_handle:
  assumes "tts_synth this = None"
  shows "generateSpeech env this text voiceId
           = (Inl (Error ''Speech synthesis not supported''), [])"
  using assms by (simp add: generateSpeech_def)

theorem generateSpeech_without_handle_witness:
  "tts_synth (new_BrowserTTS None) = None
   \<and> generateSpeech (example_platform 44100) (new_BrowserTTS None) ''One two three''
        ''voice-male-news-1''
       = (Inl (Error ''Speech synthesis not supported''), [])"
proof -
  have h: "tts_synth (new_BrowserTTS None) = None"
    by (simp add: new_BrowserTTS_def)
  from generateSpeech_without_handle [OF h] h show ?thesis by simp
qed

text \<open>
  With the handle, the voice identifier decides whether a voice is selected at all: an
  identifier that \<open>voiceMap\<close> inherits makes the selection throw once the voice list is
  not empty, and the promise rejects.
\<close>

lemma generateSpeech_inherited_key:
  "generateSpeech env
     \<lparr>tts_synth = Some (SpeechSynthesis [\<lparr>voice_name = ''Alice'', voice_lang = ''en-US''\<rparr>]),
      tts_voices = [\<lparr>voice_name = ''Alice'', voice_lang = ''en-US''\<rparr>]\<rparr>
     ''Hello world'' ''constructor''
   = (Inl TypeError, [])"
  by (simp add: generateSpeech_def selectVoiceByCharacteristics_def lookupCharacteristics_def
        voiceMap_def Object_prototype_keys_def new_SpeechSynthesisUtterance_def Let_def)


section \<open>The synthesized waveform\<close>

subsection \<open>The number of samples\<close>

lemma nine_words:
  "wordCount ''a b c d e f g h i'' = 9"
  "samples ''a b c d e f g h i'' 8000 = 28799"
  "spec_samples ''a b c d e f g h i'' 8000 = 28800"
proof -
  show wc: "wordCount ''a b c d e f g h i'' = 9" by code_simp
  have "nat \<lfloor>fl (max 2 (fl (fl (9 / 150) * 60)) * 8000)\<rfloor> = 28799" by code_simp
  then show "samples ''a b c d e f g h i'' 8000 = 28799"
    unfolding samples_def durationSeconds_def wc of_nat_numeral .
  have "spec_wordCount ''a b c d e f g h i'' = 9"
    using wc by (simp only: wordCount_spec)
  then show "spec_samples ''a b c d e f g h i'' 8000 = 28800"
    unfolding spec_samples_div by simp
qed

text \<open>
  Claim C3, as the specification states it, fails. Nine words at 8000 Hz last
  \<open>9 / 150 * 60 = 3.6\<close> seconds in exact arithmetic, which is 28800 samples. In double
  arithmetic \<open>9 / 150\<close> rounds down, the duration is \<open>3.5999999999999996\<close> and its
  product with 8000 lies below 28800: the buffer has 28799 samples.
\<close>

theorem sample_count_counterexample:
  "spec_wordCount ''a b c d e f g h i'' = 9
   \<and> spec_samples ''a b c d e f g h i'' 8000 = 28800
   \<and> buffer_length
        (fillChannel (example_platform 8000) ''a b c d e f g h i'' ''voice-male-news-1'' 8000
           (createBuffer 1 (samples ''a b c d e f g h i'' 8000) 8000)) = 28799"
  using nine_words by (simp flip: wordCount_spec)

text \<open>
  Claim C3, as the code has it. For every text (the empty one and white space alone
  included), every voice and every sample rate, the word count is the number of
  white-space-delimited tokens of the trimmed text, and at least 1; the buffer the
  synthesizer fills has \<open>floor(durationSeconds * sampleRate)\<close> samples, where the duration
  \<open>max(2, wordCount / 150 * 60)\<close> and the product are computed in double arithmetic, each
  operation rounded. Below \<open>2 ^ 48\<close> samples that is the exact value of the formula or
  one less. A text of one word gives exactly \<open>2 * sampleRate\<close> samples.
\<close>

theorem sample_count:
  "wordCount text = spec_wordCount text
   \<and> buffer_length
        (fillChannel env text voiceName sampleRate
           (createBuffer 1 (samples text sampleRate) sampleRate)) = samples text sampleRate
   \<and> samples text sampleRate
       = nat \<lfloor>fl (max 2 (fl (fl (of_nat (spec_wordCount text) / 150) * 60))
                    * of_nat sampleRate)\<rfloor>
   \<and> (spec_samples text sampleRate < 2 ^ 48 \<longrightarrow>
        samples text sampleRate = spec_samples text sampleRate
          \<or> samples text sampleRate + 1 = spec_samples text sampleRate)
   \<and> (spec_wordCount text = 1 \<and> sampleRate < 2 ^ 52 \<longrightarrow>
        samples text sampleRate = 2 * sampleRate)"
proof (intro conjI impI)
  show "wordCount text = spec_wordCount text" by (rule wordCount_spec)
  show "buffer_length
          (fillChannel env text voiceName sampleRate
             (createBuffer 1 (samples text sampleRate) sampleRate)) = samples text sampleRate"
    by simp
  show "samples text sampleRate
       = nat \<lfloor>fl (max 2 (fl (fl (of_nat (spec_wordCount text) / 150) * 60))
                    * of_nat sampleRate)\<rfloor>"
    by (simp only: samples_def durationSeconds_def wordCount_spec)
  show "samples text sampleRate = spec_samples text sampleRate
          \<or> samples text sampleRate + 1 = spec_samples text sampleRate"
    if "spec_samples text sampleRate < 2 ^ 48"
    using that by (rule samples_within_one)
  show "samples text sampleRate = 2 * sampleRate"
    if "spec_wordCount text = 1 \<and> sampleRate < 2 ^ 52"
    using that by (simp add: samples_single)
qed

theorem sample_count_witness:
  "spec_samples ''Hello'' 8000 < 2 ^ 48
   \<and> spec_wordCount ''Hello'' = 1 \<and> (8000::nat) < 2 ^ 52
   \<and> wordCount ''Hello'' = 1
   \<and> samples ''Hello'' 8000 = 16000
   \<and> spec_samples ''Hello'' 8000 = 16000
   \<and> buffer_length
        (fillChannel (example_platform 8000) ''Hello'' ''voice-male-news-1'' 8000
           (createBuffer 1 (samples ''Hello'' 8000) 8000)) = 16000"
proof -
  have w: "spec_wordCount ''Hello'' = 1" by code_simp
  have s: "spec_samples ''Hello'' 8000 = 16000"
    using spec_samples_single [OF w, of 8000] by simp
  show ?thesis
    using sample_count [of "''Hello''" "example_platform 8000" "''voice-male-news-1''" 8000]
    by (simp add: w s)
qed

subsection \<open>The word of a sample\<close>

lemma samples_nul: "samples [CHR 0x00] 8000 = 16000"
proof -
  have "spec_wordCount [CHR 0x00] = 1" by code_simp
  then show ?thesis using samples_single [of "[CHR 0x00]" 8000] by simp
qed

lemma currentWord_nul: "currentWord [CHR 0x00] 8000 1 = [CHR 0x00]"
proof -
  have w: "words [CHR 0x00] = [[CHR 0x00]]" by code_simp
  have d: "durationSeconds [CHR 0x00] = 2"
    unfolding durationSeconds_def by code_simp
  have k: "wordIndex [CHR 0x00] 8000 1 = 0"
    unfolding wordIndex_def progress_def t_at_def d w of_nat_numeral by code_simp
  show ?thesis
    unfolding currentWord_def k w by simp
qed

text \<open>
  Claim C5: the character code is that of the first character of the current word, or 65
  if the word is empty. The code writes \<open>currentWord.charCodeAt(0) || 65\<close>, and
  \<open>||\<close> takes 65 for the code 0 as well. For the text of the one character U+0000, at
  8000 Hz, the word of sample 1 is that text: it is not empty, the code of its first
  character is 0, and the synthesizer computes with 65.
\<close>

theorem charCode_nul_word:
  "1 < samples [CHR 0x00] 8000
   \<and> currentWord [CHR 0x00] 8000 1 = [CHR 0x00]
   \<and> (of_char (hd (currentWord [CHR 0x00] 8000 1)) :: nat) = 0
   \<and> charCode (currentWord [CHR 0x00] 8000 1) = 65"
  unfolding currentWord_nul samples_nul by (simp add: charCode_def)

lemma samples_empty: "samples [] 8000 = 16000"
proof -
  have "spec_wordCount [] = 1" by code_simp
  then show ?thesis using samples_single [of "[]" 8000] by simp
qed

lemma words_empty: "words [] = [[]]"
  by code_simp

text \<open>
  Claim C10, as the specification states it, fails in its last part. The empty text has
  no white space at either end, and splitting it gives the one empty word: every sample
  of its buffer has the empty word, found inside the word list.
\<close>

theorem word_lookup_counterexample:
  "0 < samples [] 8000 \<and> words [] = [[]] \<and> wordIndex [] 8000 0 = 0
   \<and> currentWord [] 8000 0 = [] \<and> \<not> outer_space []"
  by (simp add: samples_empty words_empty wordIndex_first currentWord_def outer_space_def)

text \<open>
  Claim C10, as the code has it. For every text, voice, sample rate and sample index
  \<open>i\<close> below the length of the buffer, the buffer having at most \<open>2 ^ 50\<close> samples, the
  word index lies in \<open>[0, words.length)\<close>: the lookup is inside the word list and the
  current word is the word found there, never the fallback for a missing one. The current
  word is empty only where the text is empty or has white space at its start or end.
\<close>

theorem word_lookup_in_bounds:
  assumes "i < samples text sampleRate" and "samples text sampleRate \<le> 2 ^ 50"
  shows "0 \<le> wordIndex text sampleRate i
    \<and> wordIndex text sampleRate i < int (length (words text))
    \<and> currentWord text sampleRate i = words text ! nat (wordIndex text sampleRate i)
    \<and> (currentWord text sampleRate i = [] \<longrightarrow> text = [] \<or> outer_space text)"
proof -
  have a: "0 \<le> wordIndex text sampleRate i" by (rule wordIndex_nonneg)
  have b: "wordIndex text sampleRate i < int (length (words text))"
    using assms by (rule wordIndex_less)
  from a b have n: "nat (wordIndex text sampleRate i) < length (words text)" by simp
  have c: "currentWord text sampleRate i = words text ! nat (wordIndex text sampleRate i)"
    using a n by (simp add: currentWord_def)
  have d: "text = [] \<or> outer_space text" if "currentWord text sampleRate i = []"
  proof -
    have "[] \<in> set (words text)" using that n unfolding c by (metis nth_mem)
    then have "text = [] \<or> isSpace (hd text) \<or> isSpace (last text)" by (rule empty_word)
    then show ?thesis by (auto simp add: outer_space_def)
  qed
  from a b c d show ?thesis by simp
qed

lemma leading_space:
  "samples '' hi'' 8000 = 16000" "currentWord '' hi'' 8000 0 = []"
proof -
  have "spec_wordCount '' hi'' = 1" by code_simp
  then show "samples '' hi'' 8000 = 16000" using samples_single [of "'' hi''" 8000] by simp
  have "words '' hi'' = [[], ''hi'']" by code_simp
  then show "currentWord '' hi'' 8000 0 = []"
    by (simp add: currentWord_def wordIndex_first)
qed

theorem word_lookup_in_bounds_witness:
  "0 < samples '' hi'' 8000 \<and> samples '' hi'' 8000 \<le> 2 ^ 50
   \<and> wordIndex '' hi'' 8000 0 = 0
   \<and> currentWord '' hi'' 8000 0 = []
   \<and> outer_space '' hi''"
  using word_lookup_in_bounds [of 0 "'' hi''" 8000]
  by (simp add: leading_space wordIndex_first)

subsection \<open>The magnitude of the stored samples\<close>

text \<open>
  Claim C8. On a platform whose sine takes values between -1 and 1, for every text, voice
  and sample rate, every sample of the buffer that the synthesizer fills is the 32-bit
  float nearest to the double the loop computes, its magnitude is at most 0.288, it lies in
  \<open>[-1, 1]\<close>, and the clamp of the encoder leaves it as it is.
\<close>

theorem stored_samples_in_range:
  assumes "\<And>x. \<bar>Math_sin env x\<bar> \<le> 1" and "i < samples text sampleRate"
  shows "buffer_getChannelData
           (fillChannel env text voiceName sampleRate
              (createBuffer 1 (samples text sampleRate) sampleRate)) 0 i
         = Finite (real_of_rat (fround (sample env text voiceName sampleRate i)))
    \<and> \<bar>fround (sample env text voiceName sampleRate i)\<bar> \<le> 288 / 1000
    \<and> - 1 \<le> fround (sample env text voiceName sampleRate i)
    \<and> fround (sample env text voiceName sampleRate i) \<le> 1
    \<and> math_max (Finite (- 1)) (math_min (Finite 1)
          (buffer_getChannelData
             (fillChannel env text voiceName sampleRate
                (createBuffer 1 (samples text sampleRate) sampleRate)) 0 i))
        = buffer_getChannelData
            (fillChannel env text voiceName sampleRate
               (createBuffer 1 (samples text sampleRate) sampleRate)) 0 i"
proof -
  define s where "s = fround (sample env text voiceName sampleRate i)"
  have "\<bar>sample env text voiceName sampleRate i\<bar> \<le> 2880000004 / 10 ^ 10"
    by (rule sample_bound) (rule assms(1))
  then have b: "\<bar>s\<bar> \<le> 288 / 1000" unfolding s_def by (rule fround_bound)
  then have r: "- 1 \<le> s" "s \<le> 1" by simp_all
  then have "- 1 \<le> real_of_rat s" "real_of_rat s \<le> 1"
    by (simp_all add: of_rat_less_eq [of _ 1, simplified] of_rat_less_eq [of "- 1", simplified])
  then have c: "math_max (Finite (- 1)) (math_min (Finite 1) (Finite (real_of_rat s)))
      = Finite (real_of_rat s)"
    by simp
  have e: "buffer_getChannelData
           (fillChannel env text voiceName sampleRate
              (createBuffer 1 (samples text sampleRate) sampleRate)) 0 i
         = Finite (real_of_rat s)"
    using assms(2) by (simp add: stored_def s_def)
  show ?thesis
    unfolding e using b r c unfolding s_def by simp
qed

theorem stored_samples_in_range_witness:
  "(\<forall>x. \<bar>Math_sin (example_platform 8000) x\<bar> \<le> 1)
   \<and> 4000 < samples ''Hello world'' 8000
   \<and> \<bar>fround (sample (example_platform 8000) ''Hello world'' ''voice-male-news-1'' 8000 4000)\<bar>
       \<le> 288 / 1000
   \<and> math_max (Finite (- 1)) (math_min (Finite 1)
          (buffer_getChannelData
             (fillChannel (example_platform 8000) ''Hello world'' ''voice-male-news-1'' 8000
                (createBuffer 1 (samples ''Hello world'' 8000) 8000)) 0 4000))
        = buffer_getChannelData
            (fillChannel (example_platform 8000) ''Hello world'' ''voice-male-news-1'' 8000
               (createBuffer 1 (samples ''Hello world'' 8000) 8000)) 0 4000"
proof -
  have a: "\<bar>Math_sin (example_platform 8000) x\<bar> \<le> 1" for x
    by (simp add: example_platform_def abs_le_iff)
  have b: "4000 < samples ''Hello world'' 8000" by (simp add: samples_hello)
  note t = stored_samples_in_range [of "example_platform 8000" 4000 "''Hello world''" 8000
      "''voice-male-news-1''", OF a b]
  from t have c: "\<bar>fround (sample (example_platform 8000) ''Hello world''
      ''voice-male-news-1'' 8000 4000)\<bar> \<le> 288 / 1000"
    by blast
  from t have d: "math_max (Finite (- 1)) (math_min (Finite 1)
          (buffer_getChannelData
             (fillChannel (example_platform 8000) ''Hello world'' ''voice-male-news-1'' 8000
                (createBuffer 1 (samples ''Hello world'' 8000) 8000)) 0 4000))
        = buffer_getChannelData
            (fillChannel (example_platform 8000) ''Hello world'' ''voice-male-news-1'' 8000
               (createBuffer 1 (samples ''Hello world'' 8000) 8000)) 0 4000"
    by blast
  from a b c d show ?thesis by blast
qed
end
